theory Spec2Isabelle
  imports Main "HOL-Library.Word" "HOL-Library.Monad_Syntax"
begin

section \<open>The C++ runtime as far as uci.cpp relies on it\<close>

text \<open>
  \<^verbatim>\<open>tolower\<close> in the C locale: the letters A..Z move to a..z, every other
  character stays.
\<close>

definition tolower :: "char \<Rightarrow> char" where
  "tolower c = (let n = (of_char c :: int) in if 65 \<le> n \<and> n \<le> 90 then char_of (n + 32) else c)"

text \<open>\<^verbatim>\<open>isspace\<close> in the C locale: space, and the controls \<^verbatim>\<open>\t \n \v \f \r\<close>.\<close>

definition isspace :: "char \<Rightarrow> bool" where
  "isspace c = (let n = (of_char c :: int) in n = 32 \<or> (9 \<le> n \<and> n \<le> 13))"

text \<open>Integer division of C++ truncates towards zero; \<open>div\<close> of HOL rounds down.\<close>

definition cdiv :: "int \<Rightarrow> int \<Rightarrow> int" where
  "cdiv a b = sgn a * sgn b * (\<bar>a\<bar> div \<bar>b\<bar>)"

text \<open>\<^verbatim>\<open>operator<<\<close> on an integer: decimal digits, a minus sign for a negative number.\<close>

definition digit_char :: "nat \<Rightarrow> char" where
  "digit_char d = char_of (48 + int d)"

fun digits :: "nat \<Rightarrow> string" where
  "digits n = (if n < 10 then [digit_char n] else digits (n div 10) @ [digit_char (n mod 10)])"

definition show_int :: "int \<Rightarrow> string" where
  "show_int i = (if i < 0 then CHR ''-'' # digits (nat (- i)) else digits (nat i))"

section \<open>What uci.cpp takes from the rest of the engine\<close>

text \<open>
  Only uci.cpp is among the sources. The declarations of types.h that it reads are
  parameters of the model: the two move sentinels, the accessors of a move and of a
  square, and the move type \<^verbatim>\<open>PROMOTION\<close>. Enumerations that uci.cpp only compares
  are type variables; those it computes with are numbers.
\<close>

record ('m, 'sq, 'mt) types_h =
  MOVE_NONE :: 'm
  MOVE_NULL :: 'm
  from_sq :: "'m \<Rightarrow> 'sq"
  to_sq :: "'m \<Rightarrow> 'sq"
  type_of :: "'m \<Rightarrow> 'mt"
  PROMOTION :: 'mt
  promotion_type :: "'m \<Rightarrow> nat"
  file_of :: "'sq \<Rightarrow> int"
  rank_of :: "'sq \<Rightarrow> int"

text \<open>The constants of \<^verbatim>\<open>enum Value\<close> that \<^verbatim>\<open>UCI::value\<close> reads, again parameters.\<close>

record value_consts =
  VALUE_MATE :: int
  VALUE_INFINITE :: int
  MAX_PLY :: int
  PawnValueEg :: int

text \<open>
  The collaborators behind \<^verbatim>\<open>Position\<close>, \<^verbatim>\<open>MoveList<LEGAL>\<close>, \<^verbatim>\<open>setup_bench\<close>, the clock
  and the search threads. \<open>legal_moves E pos\<close> is the enumeration \<^verbatim>\<open>MoveList<LEGAL>(pos)\<close> in
  its order; \<open>do_move\<close> is \<^verbatim>\<open>pos.do_move(m, st)\<close>; \<open>state_info pos\<close> is the \<^verbatim>\<open>StateInfo\<close> the
  position's back-reference points to, that is the entry of the state list the last
  \<^verbatim>\<open>set\<close> or \<^verbatim>\<open>do_move\<close> filled in. \<open>now E k\<close> is the value of call number \<open>k\<close> of \<^verbatim>\<open>now()\<close>, a 64-bit \<^verbatim>\<open>TimePoint\<close>,
  and \<open>nodes_searched E k\<close> what \<^verbatim>\<open>Threads.nodes_searched()\<close> returns after the \<open>k\<close>-th search.
\<close>

record ('pos, 'st, 'm) engine =
  legal_moves :: "'pos \<Rightarrow> 'm list"
  pos_set :: "string \<Rightarrow> bool \<Rightarrow> 'pos"
  do_move :: "'pos \<Rightarrow> 'm \<Rightarrow> 'pos"
  state_info :: "'pos \<Rightarrow> 'st"
  flip :: "'pos \<Rightarrow> 'pos"
  setup_bench :: "'pos \<Rightarrow> string list \<Rightarrow> string list"
  now :: "nat \<Rightarrow> 64 word"
  nodes_searched :: "nat \<Rightarrow> 64 word"

section \<open>The move and value codec\<close>

text \<open>\<^verbatim>\<open>UCI::square\<close>: \<^verbatim>\<open>{ char('a' + file_of(s)), char('1' + rank_of(s)) }\<close>.\<close>

definition square :: "('m, 'sq, 'mt) types_h \<Rightarrow> 'sq \<Rightarrow> string" where
  "square T s = [char_of (97 + file_of T s), char_of (49 + rank_of T s)]"

text \<open>
  The literal \<^verbatim>\<open>" pmsnrk"\<close> with its terminating NUL: eight characters can be read.
\<close>

definition pmsnrk :: string where
  "pmsnrk = '' pmsnrk'' @ [CHR 0x00]"

text \<open>
  \<^verbatim>\<open>UCI::move\<close>. Indexing the literal beyond its NUL is undefined in C++; the model
  returns \<open>None\<close> there and \<open>Some\<close> of the text everywhere else.
\<close>

definition move :: "('m, 'sq, 'mt) types_h \<Rightarrow> 'm \<Rightarrow> string option" where
  "move T m =
     (let from = from_sq T m; to = to_sq T m in
      if m = MOVE_NONE T then Some ''(none)''
      else if m = MOVE_NULL T then Some ''0000''
      else
        let mv = square T from @ square T to in
        if type_of T m = PROMOTION T then
          (if promotion_type T m < length pmsnrk
           then Some (mv @ [pmsnrk ! promotion_type T m]) else None)
        else Some mv)"

text \<open>
  \<^verbatim>\<open>UCI::to_move\<close>: the fifth character of a five-character text is put in lower case,
  then the legal moves are scanned in order for the first whose text is the same.
  \<open>lower5\<close> is the first statement, \<open>find_move\<close> the loop. \<open>None\<close> is passed on from
  \<open>move\<close>.
\<close>

definition lower5 :: "string \<Rightarrow> string" where
  "lower5 str = (if length str = 5 then str[4 := tolower (str ! 4)] else str)"

fun find_move :: "('m, 'sq, 'mt) types_h \<Rightarrow> string \<Rightarrow> 'm list \<Rightarrow> 'm option" where
  "find_move T str [] = Some (MOVE_NONE T)"
| "find_move T str (m # ms) =
     (case move T m of
        None \<Rightarrow> None
      | Some s \<Rightarrow> if str = s then Some m else find_move T str ms)"

definition to_move ::
  "('m, 'sq, 'mt) types_h \<Rightarrow> ('pos, 'st, 'm) engine \<Rightarrow> 'pos \<Rightarrow> string \<Rightarrow> 'm option" where
  "to_move T E pos str = find_move T (lower5 str) (legal_moves E pos)"

text \<open>
  \<^verbatim>\<open>UCI::value\<close>. The assertion and the division by \<^verbatim>\<open>PawnValueEg\<close> are the two places
  where the function can fail. \<^verbatim>\<open>Value\<close> is an \<^verbatim>\<open>int\<close> enumeration; the model computes
  in \<open>int\<close>, which is exact as long as \<open>100 * VALUE_INFINITE\<close> fits an \<^verbatim>\<open>int\<close>.
\<close>

datatype fault = Assertion_Failure | Division_By_Zero

definition uci_value :: "value_consts \<Rightarrow> int \<Rightarrow> fault + string" where
  "uci_value C v =
     (if \<not> (- VALUE_INFINITE C < v \<and> v < VALUE_INFINITE C) then Inl Assertion_Failure
      else if \<bar>v\<bar> < VALUE_MATE C - MAX_PLY C then
        (if PawnValueEg C = 0 then Inl Division_By_Zero
         else Inr (''cp '' @ show_int (cdiv (v * 100) (PawnValueEg C))))
      else
        Inr (''mate '' @
             show_int (cdiv (if v > 0 then VALUE_MATE C - v + 1 else - VALUE_MATE C - v) 2)))"

section \<open>Input streams\<close>

text \<open>
  uci.cpp reads an \<^verbatim>\<open>istringstream\<close> with \<^verbatim>\<open>operator>>\<close> only. For a string target that
  operator skips white space and takes the characters up to the next white space, so a
  stream is modelled by the list of its remaining words; \<open>tokens\<close> splits a line.
  An extraction from a stream with no word left fails and leaves the target as it was.
  A stream whose fail bit is set yields nothing any more, as a stream with no word
  left does, so a failed numeric extraction leaves the empty list.
\<close>

type_synonym istream = "string list"

fun split_ws :: "string \<Rightarrow> string \<Rightarrow> string list" where
  "split_ws cur [] = (if cur = [] then [] else [cur])"
| "split_ws cur (c # cs) =
     (if isspace c then (if cur = [] then split_ws [] cs else cur # split_ws [] cs)
      else split_ws (cur @ [c]) cs)"

definition tokens :: "string \<Rightarrow> istream" where
  "tokens line = split_ws [] line"

text \<open>
  \<^verbatim>\<open>is >> n\<close> for an integer \<open>n\<close> of the range \<open>lo..hi\<close>, in base ten: an optional sign and
  the longest run of digits are taken from the next word, and what follows them in the
  word stays in the stream. With no word left the target keeps its value; with no digit
  the target becomes 0; a number out of range becomes the nearest bound; all three set
  the fail bit.
\<close>

definition is_digit :: "char \<Rightarrow> bool" where
  "is_digit c = (let n = (of_char c :: int) in 48 \<le> n \<and> n \<le> 57)"

definition digits_val :: "string \<Rightarrow> int" where
  "digits_val ds = foldl (\<lambda>a c. 10 * a + (of_char c - 48)) 0 ds"

definition get_num :: "int \<Rightarrow> int \<Rightarrow> istream \<Rightarrow> int \<Rightarrow> int \<times> istream" where
  "get_num lo hi is old =
     (case is of
        [] \<Rightarrow> (old, [])
      | t # ts \<Rightarrow>
          let neg = (take 1 t = ''-'');
              body = (if take 1 t = ''-'' \<or> take 1 t = ''+'' then drop 1 t else t);
              ds = takeWhile is_digit body;
              rest = dropWhile is_digit body;
              v = (if neg then - digits_val ds else digits_val ds)
          in if ds = [] then (0, [])
             else if v < lo then (lo, [])
             else if hi < v then (hi, [])
             else (v, if rest = [] then ts else rest # ts))"

definition get_int :: "istream \<Rightarrow> int \<Rightarrow> int \<times> istream" where
  "get_int = get_num (- (2 ^ 31)) (2 ^ 31 - 1)"

definition get_int64 :: "istream \<Rightarrow> int \<Rightarrow> int \<times> istream" where
  "get_int64 = get_num (- (2 ^ 63)) (2 ^ 63 - 1)"

section \<open>The session: what the handlers read and change\<close>

text \<open>
  \<^verbatim>\<open>Search::LimitsType\<close> is declared in search.h, which is not among the sources.
  Modelled from the spec: Search Limits is a value object describing time budget per
  side, increments, moves-to-go, fixed depth, fixed node count, fixed search time,
  mate-search distance, perft depth, an infinite flag and a restricted list of root
  moves, constructed fresh per go command. A fresh object has an empty list and zero
  everywhere else; the time fields and \<open>nodes\<close> are 64-bit, the others \<^verbatim>\<open>int\<close>.
\<close>

record 'm LimitsType =
  searchmoves :: "'m list"
  time_WHITE :: int
  time_BLACK :: int
  inc_WHITE :: int
  inc_BLACK :: int
  movestogo :: int
  depth :: int
  nodes :: int
  movetime :: int
  mate :: int
  perft :: int
  infinite_flag :: int
  startTime :: int

definition LimitsType_init :: "'m LimitsType" where
  "LimitsType_init =
     \<lparr>searchmoves = [], time_WHITE = 0, time_BLACK = 0, inc_WHITE = 0, inc_BLACK = 0,
      movestogo = 0, depth = 0, nodes = 0, movetime = 0, mate = 0, perft = 0,
      infinite_flag = 0, startTime = 0\<rparr>"

text \<open>
  Everything the handlers do to the outside is an event of the trace, in the order it
  happens: a line written to \<^verbatim>\<open>sync_cout\<close>, text written to \<^verbatim>\<open>cerr\<close>, the calls of
  \<^verbatim>\<open>now()\<close> and the calls into the search threads. The fixed multi-line tables of the \<^verbatim>\<open>psqt\<close>, \<^verbatim>\<open>type\<close> and \<^verbatim>\<open>evaluate\<close>
  commands, the identification block of \<^verbatim>\<open>uci\<close> and the dumps of \<^verbatim>\<open>d\<close> and \<^verbatim>\<open>eval\<close> are
  events that name what is printed.
\<close>

datatype ('pos, 'm) event =
    Cout string
  | Cerr string
  | Cout_id_options_uciok "string \<Rightarrow> string option"
  | Cout_table string
  | Cout_position 'pos
  | Cout_eval_trace 'pos
  | Threads_stop_true
  | Main_ponder_false
  | Now_called
  | Start_thinking 'pos "'m LimitsType" bool
  | Wait_for_search_finished
  | Search_clear
  | System_call string
  | Engine_info
  | Dbg_print

text \<open>
  The option registry is declared in ucioption.h, not among the sources. Modelled from
  the spec: a mapping from option name to current string value, with an existence
  check, a read and a write by name.

  \<open>clock_ticks\<close> counts the calls of \<^verbatim>\<open>now()\<close> so far and \<open>n_searches\<close> the searches
  started so far; they index the readings of the engine record.
\<close>

record ('pos, 'st, 'm) session =
  cur_pos :: 'pos
  state_list :: "'st list"
  options :: "string \<Rightarrow> string option"
  trace :: "('pos, 'm) event list"
  clock_ticks :: nat
  n_searches :: nat

definition emit ::
  "('pos, 'm) event \<Rightarrow> ('pos, 'st, 'm) session \<Rightarrow> ('pos, 'st, 'm) session" where
  "emit e w = w\<lparr>trace := trace w @ [e]\<rparr>"

text \<open>
  A call of \<^verbatim>\<open>now()\<close>: its value is \<open>now E (clock_ticks w)\<close>, and \<open>tick w\<close> is the session
  after the call.
\<close>

definition tick :: "('pos, 'st, 'm) session \<Rightarrow> ('pos, 'st, 'm) session" where
  "tick w = emit Now_called (w\<lparr>clock_ticks := Suc (clock_ticks w)\<rparr>)"

section \<open>The position command\<close>

definition StartFEN :: string where
  "StartFEN = ''rnsmksnr/8/pppppppp/8/8/PPPPPPPP/8/RNSKMSNR w 0 1''"

text \<open>\<^verbatim>\<open>while (is >> token && token != "moves") fen += token + " ";\<close>\<close>

fun read_fen :: "string \<Rightarrow> istream \<Rightarrow> string \<times> istream" where
  "read_fen fen [] = (fen, [])"
| "read_fen fen (token # is) =
     (if token \<noteq> ''moves'' then read_fen (fen @ token @ '' '') is else (fen, is))"

text \<open>
  The move loop of \<^verbatim>\<open>position\<close>: each word that decodes to a legal move adds an entry to
  the state list and is played; the loop ends with the stream or at the first word
  that decodes to \<^verbatim>\<open>MOVE_NONE\<close>.
\<close>

fun play_moves ::
  "('m, 'sq, 'mt) types_h \<Rightarrow> ('pos, 'st, 'm) engine \<Rightarrow> 'pos \<Rightarrow> 'st list \<Rightarrow> istream
   \<Rightarrow> ('pos \<times> 'st list) option" where
  "play_moves T E p sts [] = Some (p, sts)"
| "play_moves T E p sts (token # is) =
     (case to_move T E p token of
        None \<Rightarrow> None
      | Some m \<Rightarrow>
          if m \<noteq> MOVE_NONE T
          then play_moves T E (do_move E p m) (sts @ [state_info E (do_move E p m)]) is
          else Some (p, sts))"

text \<open>
  Lines 71 to 79: the state list is replaced by a list of one entry, the position is
  set from the FEN text and the \<^verbatim>\<open>UCI_Chess960\<close> option, and the moves are played.
\<close>

definition set_and_play ::
  "('m, 'sq, 'mt) types_h \<Rightarrow> ('pos, 'st, 'm) engine \<Rightarrow> ('pos, 'st, 'm) session \<Rightarrow> string
   \<Rightarrow> istream \<Rightarrow> ('pos, 'st, 'm) session option" where
  "set_and_play T E w fen is =
     (let p0 = pos_set E fen (options w ''UCI_Chess960'' = Some ''true'')
      in case play_moves T E p0 [state_info E p0] is of
           None \<Rightarrow> None
         | Some (p, sts) \<Rightarrow> Some (w\<lparr>cur_pos := p, state_list := sts\<rparr>))"

definition position ::
  "('m, 'sq, 'mt) types_h \<Rightarrow> ('pos, 'st, 'm) engine \<Rightarrow> ('pos, 'st, 'm) session \<Rightarrow> istream
   \<Rightarrow> ('pos, 'st, 'm) session option" where
  "position T E w is =
     (case is of
        [] \<Rightarrow> Some w
      | token # is1 \<Rightarrow>
          if token = ''startpos'' then set_and_play T E w StartFEN (drop 1 is1)
          else if token = ''fen'' then
            (case read_fen [] is1 of (fen, is2) \<Rightarrow> set_and_play T E w fen is2)
          else Some w)"

section \<open>The setoption command\<close>

text \<open>\<^verbatim>\<open>while (is >> token && token != "value") name += (name.empty() ? "" : " ") + token;\<close>\<close>

fun read_name :: "string \<Rightarrow> istream \<Rightarrow> string \<times> istream" where
  "read_name name [] = (name, [])"
| "read_name name (token # is) =
     (if token \<noteq> ''value''
      then read_name (name @ (if name = [] then [] else '' '') @ token) is
      else (name, is))"

text \<open>\<^verbatim>\<open>while (is >> token) value += (value.empty() ? "" : " ") + token;\<close>\<close>

fun read_value :: "string \<Rightarrow> istream \<Rightarrow> string" where
  "read_value val [] = val"
| "read_value val (token # is) =
     read_value (val @ (if val = [] then [] else '' '') @ token) is"

definition setoption ::
  "('pos, 'st, 'm) session \<Rightarrow> istream \<Rightarrow> ('pos, 'st, 'm) session" where
  "setoption w is =
     (case read_name [] (drop 1 is) of
        (name, is2) \<Rightarrow>
          let val = read_value [] is2 in
          if options w name \<noteq> None
          then w\<lparr>options := (options w)(name \<mapsto> val)\<rparr>
          else emit (Cout (''No such option: '' @ name)) w)"

section \<open>The go command\<close>

text \<open>
  The inner loop of line 121:
  \<^verbatim>\<open>while (is >> token) limits.searchmoves.push_back(UCI::to_move(pos, token));\<close>
\<close>

fun read_searchmoves ::
  "('m, 'sq, 'mt) types_h \<Rightarrow> ('pos, 'st, 'm) engine \<Rightarrow> 'pos \<Rightarrow> 'm list \<Rightarrow> istream
   \<Rightarrow> 'm list option" where
  "read_searchmoves T E p ms [] = Some ms"
| "read_searchmoves T E p ms (token # is) =
     (case to_move T E p token of
        None \<Rightarrow> None
      | Some m \<Rightarrow> read_searchmoves T E p (ms @ [m]) is)"

text \<open>
  The outer loop of lines 119 to 135. After the inner loop the stream has no word left,
  so the outer loop ends with it.
\<close>

function go_loop ::
  "('m, 'sq, 'mt) types_h \<Rightarrow> ('pos, 'st, 'm) engine \<Rightarrow> 'pos \<Rightarrow> 'm LimitsType \<Rightarrow> bool
   \<Rightarrow> istream \<Rightarrow> ('m LimitsType \<times> bool) option" where
  "go_loop T E p limits ponderMode [] = Some (limits, ponderMode)"
| "go_loop T E p limits ponderMode (token # is) =
     (if token = ''searchmoves'' then
        (case read_searchmoves T E p (searchmoves limits) is of
           None \<Rightarrow> None
         | Some ms \<Rightarrow> Some (limits\<lparr>searchmoves := ms\<rparr>, ponderMode))
      else if token = ''wtime'' then
        go_loop T E p (limits\<lparr>time_WHITE := fst (get_int64 is (time_WHITE limits))\<rparr>) ponderMode
          (snd (get_int64 is (time_WHITE limits)))
      else if token = ''btime'' then
        go_loop T E p (limits\<lparr>time_BLACK := fst (get_int64 is (time_BLACK limits))\<rparr>) ponderMode
          (snd (get_int64 is (time_BLACK limits)))
      else if token = ''winc'' then
        go_loop T E p (limits\<lparr>inc_WHITE := fst (get_int64 is (inc_WHITE limits))\<rparr>) ponderMode
          (snd (get_int64 is (inc_WHITE limits)))
      else if token = ''binc'' then
        go_loop T E p (limits\<lparr>inc_BLACK := fst (get_int64 is (inc_BLACK limits))\<rparr>) ponderMode
          (snd (get_int64 is (inc_BLACK limits)))
      else if token = ''movestogo'' then
        go_loop T E p (limits\<lparr>movestogo := fst (get_int is (movestogo limits))\<rparr>) ponderMode
          (snd (get_int is (movestogo limits)))
      else if token = ''depth'' then
        go_loop T E p (limits\<lparr>depth := fst (get_int is (depth limits))\<rparr>) ponderMode
          (snd (get_int is (depth limits)))
      else if token = ''nodes'' then
        go_loop T E p (limits\<lparr>nodes := fst (get_int64 is (nodes limits))\<rparr>) ponderMode
          (snd (get_int64 is (nodes limits)))
      else if token = ''movetime'' then
        go_loop T E p (limits\<lparr>movetime := fst (get_int64 is (movetime limits))\<rparr>) ponderMode
          (snd (get_int64 is (movetime limits)))
      else if token = ''mate'' then
        go_loop T E p (limits\<lparr>mate := fst (get_int is (mate limits))\<rparr>) ponderMode
          (snd (get_int is (mate limits)))
      else if token = ''perft'' then
        go_loop T E p (limits\<lparr>perft := fst (get_int is (perft limits))\<rparr>) ponderMode
          (snd (get_int is (perft limits)))
      else if token = ''infinite'' then
        go_loop T E p (limits\<lparr>infinite_flag := 1\<rparr>) ponderMode is
      else if token = ''ponder'' then
        go_loop T E p limits True is
      else go_loop T E p limits ponderMode is)"
  by pat_completeness auto
termination
  by (relation "measure (\<lambda>(T, E, p, limits, ponderMode, is). length is)")
    (simp_all add: get_int_def get_int64_def get_num_def Let_def split: list.split)

text \<open>
  \<^verbatim>\<open>go\<close>: the start time is read first, the words are parsed, and the search is started.
  \<^verbatim>\<open>Threads.start_thinking\<close> is an event that carries what it is given.
\<close>

definition go ::
  "('m, 'sq, 'mt) types_h \<Rightarrow> ('pos, 'st, 'm) engine \<Rightarrow> ('pos, 'st, 'm) session \<Rightarrow> istream
   \<Rightarrow> ('pos, 'st, 'm) session option" where
  "go T E w is =
     (case go_loop T E (cur_pos w) (LimitsType_init\<lparr>startTime := sint (now E (clock_ticks w))\<rparr>)
             False is of
        None \<Rightarrow> None
      | Some (limits, ponderMode) \<Rightarrow>
          Some (emit (Start_thinking (cur_pos w) limits ponderMode)
                  ((tick w)\<lparr>n_searches := Suc (n_searches w)\<rparr>)))"

section \<open>The bench command\<close>

text \<open>
  The local variables of \<^verbatim>\<open>bench\<close> that live across the loop. \<^verbatim>\<open>token\<close> is declared
  outside the loop and is not cleared, so a line without a word runs the command of the
  line before it. \<^verbatim>\<open>nodes\<close> and \<^verbatim>\<open>cnt\<close> are \<^verbatim>\<open>uint64_t\<close>, \<^verbatim>\<open>elapsed\<close> is a \<^verbatim>\<open>TimePoint\<close>.
\<close>

record bench_vars =
  b_token :: string
  b_nodes :: "64 word"
  b_cnt :: "64 word"
  b_elapsed :: "64 word"

definition bench_cmd ::
  "('m, 'sq, 'mt) types_h \<Rightarrow> ('pos, 'st, 'm) engine \<Rightarrow> 64 word
   \<Rightarrow> ('pos, 'st, 'm) session \<times> bench_vars \<Rightarrow> string
   \<Rightarrow> (('pos, 'st, 'm) session \<times> bench_vars) option" where
  "bench_cmd T E num wb cmd =
     (case wb of (w, b) \<Rightarrow>
        let token = (case tokens cmd of [] \<Rightarrow> b_token b | t # r \<Rightarrow> t);
            is = drop 1 (tokens cmd);
            b1 = b\<lparr>b_token := token\<rparr>
        in
        if token = ''go'' then
          (case go T E
                  (emit (Cerr ([CHR 0x0A] @ ''Position: '' @ show_int (uint (b_cnt b)) @ ''/''
                               @ show_int (uint num) @ [CHR 0x0A])) w) is of
             None \<Rightarrow> None
           | Some w1 \<Rightarrow>
               Some (emit Wait_for_search_finished w1,
                     b1\<lparr>b_cnt := b_cnt b + 1,
                        b_nodes := b_nodes b + nodes_searched E (n_searches w1)\<rparr>))
        else if token = ''setoption'' then Some (setoption w is, b1)
        else if token = ''position'' then
          (case position T E w is of None \<Rightarrow> None | Some w1 \<Rightarrow> Some (w1, b1))
        else if token = ''ucinewgame'' then
          Some (tick (emit Search_clear w), b1\<lparr>b_elapsed := now E (clock_ticks w)\<rparr>)
        else Some (w, b1))"

fun bench_loop ::
  "('m, 'sq, 'mt) types_h \<Rightarrow> ('pos, 'st, 'm) engine \<Rightarrow> 64 word
   \<Rightarrow> ('pos, 'st, 'm) session \<times> bench_vars \<Rightarrow> string list
   \<Rightarrow> (('pos, 'st, 'm) session \<times> bench_vars) option" where
  "bench_loop T E num wb [] = Some wb"
| "bench_loop T E num wb (cmd # list) =
     (case bench_cmd T E num wb cmd of
        None \<Rightarrow> None
      | Some wb' \<Rightarrow> bench_loop T E num wb' list)"

text \<open>
  The summary of lines 176 to 179. \<^verbatim>\<open>1000 * nodes / elapsed\<close> is computed in \<^verbatim>\<open>uint64_t\<close>.
\<close>

definition bench_report :: "64 word \<Rightarrow> 64 word \<Rightarrow> string" where
  "bench_report elapsed nds =
     [CHR 0x0A] @ ''===========================''
     @ [CHR 0x0A] @ ''Total time (ms) : '' @ show_int (sint elapsed)
     @ [CHR 0x0A] @ ''Nodes searched  : '' @ show_int (uint nds)
     @ [CHR 0x0A] @ ''Nodes/second    : '' @ show_int (uint (1000 * nds div elapsed))
     @ [CHR 0x0A]"

text \<open>
  \<^verbatim>\<open>bench\<close>. The division by an \<^verbatim>\<open>elapsed\<close> of zero is undefined in C++: \<open>None\<close>.
\<close>

definition bench ::
  "('m, 'sq, 'mt) types_h \<Rightarrow> ('pos, 'st, 'm) engine \<Rightarrow> ('pos, 'st, 'm) session \<Rightarrow> istream
   \<Rightarrow> ('pos, 'st, 'm) session option" where
  "bench T E w args =
     (let list = setup_bench E (cur_pos w) args;
          num = of_nat (length (filter (\<lambda>s. take 3 s = ''go '') list));
          b0 = \<lparr>b_token = [], b_nodes = 0, b_cnt = 1, b_elapsed = now E (clock_ticks w)\<rparr>
      in case bench_loop T E num (tick w, b0) list of
           None \<Rightarrow> None
         | Some (w1, b1) \<Rightarrow>
             let elapsed = now E (clock_ticks w1) - b_elapsed b1 + 1 in
             if elapsed = 0 then None
             else Some (emit (Cerr (bench_report elapsed (b_nodes b1)))
                         (emit Dbg_print (tick w1))))"

section \<open>The command loop\<close>

text \<open>
  One pass through the body of the \<^verbatim>\<open>do\<close> loop of \<^verbatim>\<open>UCI::loop\<close> for the line \<open>cmd\<close>:
  \<^verbatim>\<open>token\<close> is cleared, the first word is read into it, and the chain of comparisons
  selects the handler.
\<close>

definition first_token :: "string \<Rightarrow> string" where
  "first_token cmd = (case tokens cmd of [] \<Rightarrow> [] | t # r \<Rightarrow> t)"

definition dispatch ::
  "('m, 'sq, 'mt) types_h \<Rightarrow> ('pos, 'st, 'm) engine \<Rightarrow> ('pos, 'st, 'm) session \<Rightarrow> string
   \<Rightarrow> ('pos, 'st, 'm) session option" where
  "dispatch T E w cmd =
     (let token = first_token cmd; is = drop 1 (tokens cmd) in
      if token = ''quit'' \<or> token = ''stop'' then Some (emit Threads_stop_true w)
      else if token = ''ponderhit'' then Some (emit Main_ponder_false w)
      else if token = ''uci'' then Some (emit (Cout_id_options_uciok (options w)) w)
      else if token = ''setoption'' then Some (setoption w is)
      else if token = ''go'' then go T E w is
      else if token = ''position'' then position T E w is
      else if token = ''ucinewgame'' then Some (emit Search_clear w)
      else if token = ''isready'' then Some (emit (Cout ''readyok'') w)
      else if token = ''dev'' then Some (emit (Cout_table ''dev'') w)
      else if token = ''devhelp'' then Some (emit (Cout_table ''devhelp'') w)
      else if token = ''psqt'' then Some (emit (Cout_table ''psqt'') w)
      else if token = ''type'' then Some (emit (Cout_table ''type'') w)
      else if token = ''evaluate'' then Some (emit (Cout_table ''evaluate'') w)
      else if token = ''clear'' then Some (emit Engine_info (emit (System_call ''cls'') w))
      else if token = ''flip'' then Some (w\<lparr>cur_pos := flip E (cur_pos w)\<rparr>)
      else if token = ''bench'' then bench T E w is
      else if token = ''d'' then Some (emit (Cout_position (cur_pos w)) w)
      else if token = ''eval'' then Some (emit (Cout_eval_trace (cur_pos w)) w)
      else Some (emit (Cout (''Unknown command: '' @ cmd)) w))"

text \<open>
  The loop without command line arguments: \<open>lines\<close> is what \<^verbatim>\<open>getline\<close> yields from
  standard input, one line each time, and the end of the list is the end of the input,
  where \<^verbatim>\<open>cmd\<close> becomes \<^verbatim>\<open>"quit"\<close>.
\<close>

fun loop_lines ::
  "('m, 'sq, 'mt) types_h \<Rightarrow> ('pos, 'st, 'm) engine \<Rightarrow> ('pos, 'st, 'm) session \<Rightarrow> string list
   \<Rightarrow> ('pos, 'st, 'm) session option" where
  "loop_lines T E w [] = dispatch T E w ''quit''"
| "loop_lines T E w (cmd # lines) =
     (case dispatch T E w cmd of
        None \<Rightarrow> None
      | Some w' \<Rightarrow> if first_token cmd \<noteq> ''quit'' then loop_lines T E w' lines else Some w')"

text \<open>
  \<^verbatim>\<open>UCI::loop\<close>: \<open>argv\<close> holds the arguments after the program name, \<open>registry\<close> the
  option registry at the start. With arguments the loop body runs once, on the
  arguments joined with a blank after each.
\<close>

definition loop ::
  "('m, 'sq, 'mt) types_h \<Rightarrow> ('pos, 'st, 'm) engine \<Rightarrow> (string \<Rightarrow> string option)
   \<Rightarrow> string list \<Rightarrow> string list \<Rightarrow> ('pos, 'st, 'm) session option" where
  "loop T E registry argv lines =
     (let p0 = pos_set E StartFEN False;
          w0 = \<lparr>cur_pos = p0, state_list = [state_info E p0], options = registry, trace = [],
                clock_ticks = 0, n_searches = 0\<rparr>
      in if argv = [] then loop_lines T E w0 lines
         else dispatch T E w0 (concat (map (\<lambda>a. a @ '' '') argv)))"

section \<open>A small instance of the parameters\<close>

text \<open>
  The theorems below hold for every choice of the parameters. To evaluate the model on
  concrete inputs the parameters are given values here: a move is a triple of origin
  square, destination square and promotion piece (0 when the move is no promotion),
  squares are numbered from a1 = 0 along the ranks to h8 = 63, and a position is the FEN
  text it was set from, the variant flag and the moves played since. The stand-in for
  the move generator knows pawn pushes only: from the initial position the side to move
  may push any pawn one step, and from any other FEN text there are a promoting pawn
  push from a5 and three moves of the piece on a1.
\<close>

type_synonym sample_move = "nat \<times> nat \<times> nat"

type_synonym sample_pos = "string \<times> bool \<times> sample_move list"

definition sample_types :: "(sample_move, nat, bool) types_h" where
  "sample_types =
     \<lparr>MOVE_NONE = (0, 0, 0), MOVE_NULL = (1, 1, 0),
      from_sq = (\<lambda>m. fst m), to_sq = (\<lambda>m. fst (snd m)),
      type_of = (\<lambda>m. snd (snd m) \<noteq> 0), PROMOTION = True,
      promotion_type = (\<lambda>m. min (snd (snd m)) 6),
      file_of = (\<lambda>s. int (s mod 8)), rank_of = (\<lambda>s. int (s div 8))\<rparr>"

definition sample_consts :: value_consts where
  "sample_consts = \<lparr>VALUE_MATE = 32000, VALUE_INFINITE = 32001, MAX_PLY = 246, PawnValueEg = 206\<rparr>"

definition white_pushes :: "sample_move list" where
  "white_pushes = [(16, 24, 0), (17, 25, 0), (18, 26, 0), (19, 27, 0),
                   (20, 28, 0), (21, 29, 0), (22, 30, 0), (23, 31, 0)]"

definition black_pushes :: "sample_move list" where
  "black_pushes = [(40, 32, 0), (41, 33, 0), (42, 34, 0), (43, 35, 0),
                   (44, 36, 0), (45, 37, 0), (46, 38, 0), (47, 39, 0)]"

definition sample_legal :: "sample_pos \<Rightarrow> sample_move list" where
  "sample_legal p =
     (case p of (fen, c, h) \<Rightarrow>
        if fen = StartFEN then (if even (length h) then white_pushes else black_pushes)
        else if h = [] then [(32, 40, 2), (0, 8, 0), (0, 1, 0), (0, 9, 0)]
        else [])"

definition sample_engine :: "(sample_pos, nat, sample_move) engine" where
  "sample_engine =
     \<lparr>legal_moves = sample_legal,
      pos_set = (\<lambda>fen c. (fen, c, [])),
      do_move = (\<lambda>p m. case p of (fen, c, h) \<Rightarrow> (fen, c, h @ [m])),
      state_info = (\<lambda>p. case p of (fen, c, h) \<Rightarrow> length h),
      flip = (\<lambda>p. p),
      setup_bench = (\<lambda>p args. [''position startpos'', ''go depth 1'', ''ucinewgame'', ''go depth 1'']),
      now = (\<lambda>k. 1000 + 5 * of_nat k),
      nodes_searched = (\<lambda>k. 100 * of_nat k)\<rparr>"

definition sample_registry :: "string \<Rightarrow> string option" where
  "sample_registry = [''UCI_Chess960'' \<mapsto> ''false'', ''Skill Level'' \<mapsto> ''20'']"

definition sample_session :: "(sample_pos, nat, sample_move) session" where
  "sample_session =
     \<lparr>cur_pos = (StartFEN, False, []), state_list = [0], options = sample_registry, trace = [],
      clock_ticks = 0, n_searches = 0\<rparr>"

definition promo_pos :: sample_pos where
  "promo_pos = (''k7/8/8/P7/8/8/8/K7 w 0 1 '', False, [])"

section \<open>Notions the statements use\<close>

text \<open>
  \<open>encodable T E\<close>: in every position every legal move has a text, that is, no legal
  promotion carries a piece type beyond the literal \<^verbatim>\<open>" pmsnrk"\<close>.
\<close>

definition encodable :: "('m, 'sq, 'mt) types_h \<Rightarrow> ('pos, 'st, 'm) engine \<Rightarrow> bool" where
  "encodable T E = (\<forall>p. None \<notin> set (map (move T) (legal_moves E p)))"

text \<open>
  After the spec, section 4.2: decode each word against the position's current legal
  moves, which change after every application, and stop at the first word that does
  not decode to a legal move. \<open>decodable_prefix\<close> is the list of the moves decoded.
\<close>

fun decodable_prefix ::
  "('m, 'sq, 'mt) types_h \<Rightarrow> ('pos, 'st, 'm) engine \<Rightarrow> 'pos \<Rightarrow> string list \<Rightarrow> 'm list" where
  "decodable_prefix T E p [] = []"
| "decodable_prefix T E p (t # ts) =
     (case to_move T E p t of
        None \<Rightarrow> []
      | Some m \<Rightarrow> if m = MOVE_NONE T then [] else m # decodable_prefix T E (do_move E p m) ts)"

text \<open>
  After the spec, section 4.2: a state history of one entry for the position set up and
  one more entry per applied move.
\<close>

fun history :: "('pos, 'st, 'm) engine \<Rightarrow> 'pos \<Rightarrow> 'm list \<Rightarrow> 'st list" where
  "history E p [] = [state_info E p]"
| "history E p (m # ms) = state_info E p # history E (do_move E p m) ms"

text \<open>The FEN text of the words \<open>ft\<close>: each word followed by a blank.\<close>

definition fen_text :: "string list \<Rightarrow> string" where
  "fen_text ft = concat (map (\<lambda>t. t @ '' '') ft)"

text \<open>
  After the spec, the postcondition of section 4.2: the session in which the position is
  the one set from \<open>fen\<close> with the decodable prefix of \<open>mv\<close> applied in order, and the
  state history backs exactly these moves.
\<close>

definition replayed ::
  "('m, 'sq, 'mt) types_h \<Rightarrow> ('pos, 'st, 'm) engine \<Rightarrow> ('pos, 'st, 'm) session \<Rightarrow> string
   \<Rightarrow> string list \<Rightarrow> ('pos, 'st, 'm) session" where
  "replayed T E w fen mv =
     (let p0 = pos_set E fen (options w ''UCI_Chess960'' = Some ''true'');
          ms = decodable_prefix T E p0 mv
      in w\<lparr>cur_pos := foldl (do_move E) p0 ms, state_list := history E p0 ms\<rparr>)"

text \<open>Words joined with single blanks.\<close>

fun join_sp :: "string list \<Rightarrow> string" where
  "join_sp [] = []"
| "join_sp [t] = t"
| "join_sp (t # ts) = t @ '' '' @ join_sp ts"

text \<open>
  After the spec, section 4.5: the option name is made of the words after the first up
  to a \<^verbatim>\<open>value\<close> keyword, and the option value of the words after that keyword.
\<close>

definition option_name :: "istream \<Rightarrow> string" where
  "option_name toks = join_sp (takeWhile (\<lambda>t. t \<noteq> ''value'') (drop 1 toks))"

definition option_value :: "istream \<Rightarrow> string" where
  "option_value toks = join_sp (drop 1 (dropWhile (\<lambda>t. t \<noteq> ''value'') (drop 1 toks)))"

text \<open>
  A numeric word: an optional sign followed by digits only, at least one. Its value is
  what \<open>numeral_value\<close> yields.
\<close>

definition numeral_value :: "string \<Rightarrow> int option" where
  "numeral_value t =
     (let body = (if take 1 t = ''-'' \<or> take 1 t = ''+'' then drop 1 t else t)
      in if body \<noteq> [] \<and> list_all is_digit body
         then Some (if take 1 t = ''-'' then - digits_val body else digits_val body)
         else None)"

definition fits :: "int \<Rightarrow> int \<Rightarrow> string \<Rightarrow> bool" where
  "fits lo hi t = (case numeral_value t of None \<Rightarrow> False | Some v \<Rightarrow> lo \<le> v \<and> v \<le> hi)"

text \<open>The vocabulary of \<^verbatim>\<open>go\<close>, after the spec, section 4.3.\<close>

definition int64_keywords :: "string list" where
  "int64_keywords = [''wtime'', ''btime'', ''winc'', ''binc'', ''nodes'', ''movetime'']"

definition int_keywords :: "string list" where
  "int_keywords = [''movestogo'', ''depth'', ''mate'', ''perft'']"

definition go_keywords :: "string list" where
  "go_keywords = ''searchmoves'' # int64_keywords @ int_keywords @ [''infinite'', ''ponder'']"

text \<open>
  The words of a \<^verbatim>\<open>go\<close> command before its \<^verbatim>\<open>searchmoves\<close> clause, after the grammar of
  the spec, section 6: each numeric keyword is followed by a numeric word in the range of
  its field, and \<^verbatim>\<open>searchmoves\<close> is not among them.
\<close>

fun go_clauses :: "string list \<Rightarrow> bool" where
  "go_clauses [] = True"
| "go_clauses [t] = (t \<notin> set (''searchmoves'' # int64_keywords @ int_keywords))"
| "go_clauses (t # n # ts) =
     (if t = ''searchmoves'' then False
      else if t \<in> set int64_keywords then fits (- (2 ^ 63)) (2 ^ 63 - 1) n \<and> go_clauses ts
      else if t \<in> set int_keywords then fits (- (2 ^ 31)) (2 ^ 31 - 1) n \<and> go_clauses ts
      else go_clauses (n # ts))"

text \<open>
  Three counts over a bench script, by the first word of each line. \<^verbatim>\<open>go\<close> and
  \<^verbatim>\<open>ucinewgame\<close> are the lines that call \<^verbatim>\<open>now()\<close>, once each. \<open>start_read\<close> is the number
  of the clock reading, counted from the one at the entry of \<^verbatim>\<open>bench\<close>, that starts the
  elapsed time: the reading at the entry when the script has no \<^verbatim>\<open>ucinewgame\<close> line, and
  otherwise the reading taken at the last such line, which comes after those of the lines
  before it.
\<close>

definition clock_reads :: "string list \<Rightarrow> nat" where
  "clock_reads script =
     length (filter (\<lambda>c. first_token c = ''go'' \<or> first_token c = ''ucinewgame'') script)"

definition go_lines :: "string list \<Rightarrow> nat" where
  "go_lines script = length (filter (\<lambda>c. first_token c = ''go'') script)"

definition start_read :: "string list \<Rightarrow> nat" where
  "start_read script =
     (case dropWhile (\<lambda>c. first_token c \<noteq> ''ucinewgame'') (rev script) of
        [] \<Rightarrow> 0
      | u # before \<Rightarrow> Suc (clock_reads (rev before)))"

text \<open>
  The sum of what \<^verbatim>\<open>Threads.nodes_searched()\<close> returns after each of \<open>g\<close> searches, the
  first of them being search number \<open>n0 + 1\<close>; the sum is taken in \<^verbatim>\<open>uint64_t\<close>.
\<close>

definition total_nodes :: "('pos, 'st, 'm) engine \<Rightarrow> nat \<Rightarrow> nat \<Rightarrow> 64 word" where
  "total_nodes E n0 g = sum_list (map (\<lambda>k. nodes_searched E (n0 + k)) [1..<Suc g])"

section \<open>The value codec: centipawns and mate distances\<close>

lemma cdiv_nonneg: "0 \<le> a \<Longrightarrow> 0 < b \<Longrightarrow> cdiv a b = a div b"
  by (cases "a = 0") (simp_all add: cdiv_def)

lemma cdiv_nonpos: "a \<le> 0 \<Longrightarrow> 0 < b \<Longrightarrow> cdiv a b = - ((- a) div b)"
  by (cases "a = 0") (simp_all add: cdiv_def)

lemma show_int_1: "show_int 1 = ''1''"
  by (simp add: show_int_def digit_char_def char_of_def)

lemma show_int_m1: "show_int (- 1) = ''-1''"
  by (simp add: show_int_def digit_char_def char_of_def)

lemma show_int_0: "show_int 0 = ''0''"
  by (simp add: show_int_def digit_char_def char_of_def)

lemma uci_value_cp:
  assumes "0 \<le> MAX_PLY C" "VALUE_MATE C < VALUE_INFINITE C" "PawnValueEg C \<noteq> 0"
    and "\<bar>v\<bar> < VALUE_MATE C - MAX_PLY C"
  shows "uci_value C v = Inr (''cp '' @ show_int (cdiv (v * 100) (PawnValueEg C)))"
proof -
  from assms have "- VALUE_INFINITE C < v \<and> v < VALUE_INFINITE C" by linarith
  with assms show ?thesis by (simp add: uci_value_def)
qed

lemma uci_value_mate_in:
  assumes "MAX_PLY C < VALUE_MATE C" "VALUE_MATE C < VALUE_INFINITE C"
    and "1 \<le> k" "k \<le> MAX_PLY C"
  shows "uci_value C (VALUE_MATE C - k) = Inr (''mate '' @ show_int ((k + 1) div 2))"
proof -
  let ?v = "VALUE_MATE C - k"
  from assms have rng: "- VALUE_INFINITE C < ?v \<and> ?v < VALUE_INFINITE C" by linarith
  from assms have pos: "0 < ?v" by linarith
  from assms pos have far: "\<not> \<bar>?v\<bar> < VALUE_MATE C - MAX_PLY C" by linarith
  have "cdiv (VALUE_MATE C - ?v + 1) 2 = (k + 1) div 2"
    using assms by (simp add: cdiv_nonneg)
  with rng pos far show ?thesis by (simp add: uci_value_def)
qed

lemma uci_value_mated_in:
  assumes "MAX_PLY C < VALUE_MATE C" "VALUE_MATE C < VALUE_INFINITE C"
    and "0 \<le> k" "k \<le> MAX_PLY C"
  shows "uci_value C (- VALUE_MATE C + k) = Inr (''mate '' @ show_int (- (k div 2)))"
proof -
  let ?v = "- VALUE_MATE C + k"
  from assms have rng: "- VALUE_INFINITE C < ?v \<and> ?v < VALUE_INFINITE C" by linarith
  from assms have neg: "\<not> 0 < ?v" by linarith
  from assms neg have far: "\<not> \<bar>?v\<bar> < VALUE_MATE C - MAX_PLY C" by linarith
  have "cdiv (- VALUE_MATE C - ?v) 2 = - (k div 2)"
    using assms by (simp add: cdiv_nonpos)
  with rng neg far show ?thesis by (simp add: uci_value_def)
qed

text \<open>
  C4, as the code has it. Let the constants satisfy \<open>2 \<le> MAX_PLY < VALUE_MATE <
  VALUE_INFINITE\<close> and \<open>PawnValueEg \<noteq> 0\<close>. A value whose absolute value is below
  \<open>VALUE_MATE - MAX_PLY\<close> is printed as \<^verbatim>\<open>cp\<close> followed by \<open>100 * v / PawnValueEg\<close>,
  truncated towards zero. Every other value between the infinite sentinels is printed as
  \<^verbatim>\<open>mate\<close> followed by a count of full moves: the value \<open>VALUE_MATE - k\<close> (mate in \<open>k\<close>
  plies) gives \<open>(k + 1) div 2\<close> and the value \<open>- VALUE_MATE + k\<close> (mated in \<open>k\<close> plies)
  gives \<open>- (k div 2)\<close>. So mate in one ply prints \<^verbatim>\<open>mate 1\<close>, and being mated in two
  plies, one full move, prints \<^verbatim>\<open>mate -1\<close>.
\<close>

theorem uci_value_encoding:
  assumes "2 \<le> MAX_PLY C" and "MAX_PLY C < VALUE_MATE C"
    and "VALUE_MATE C < VALUE_INFINITE C" and "PawnValueEg C \<noteq> 0"
  shows "(\<forall>v. \<bar>v\<bar> < VALUE_MATE C - MAX_PLY C \<longrightarrow>
            uci_value C v = Inr (''cp '' @ show_int (cdiv (v * 100) (PawnValueEg C))))
       \<and> (\<forall>v. - VALUE_INFINITE C < v \<and> v < VALUE_INFINITE C \<and> \<not> \<bar>v\<bar> < VALUE_MATE C - MAX_PLY C \<longrightarrow>
            uci_value C v = Inr (''mate '' @
              show_int (cdiv (if v > 0 then VALUE_MATE C - v + 1 else - VALUE_MATE C - v) 2)))
       \<and> (\<forall>k. 1 \<le> k \<and> k \<le> MAX_PLY C \<longrightarrow>
            uci_value C (VALUE_MATE C - k) = Inr (''mate '' @ show_int ((k + 1) div 2)))
       \<and> (\<forall>k. 0 \<le> k \<and> k \<le> MAX_PLY C \<longrightarrow>
            uci_value C (- VALUE_MATE C + k) = Inr (''mate '' @ show_int (- (k div 2))))
       \<and> uci_value C (VALUE_MATE C - 1) = Inr ''mate 1''
       \<and> uci_value C (- VALUE_MATE C + 2) = Inr ''mate -1''"
proof -
  have cp: "\<forall>v. \<bar>v\<bar> < VALUE_MATE C - MAX_PLY C \<longrightarrow>
            uci_value C v = Inr (''cp '' @ show_int (cdiv (v * 100) (PawnValueEg C)))"
    using assms by (simp add: uci_value_cp)
  have mt: "\<forall>v. - VALUE_INFINITE C < v \<and> v < VALUE_INFINITE C \<and> \<not> \<bar>v\<bar> < VALUE_MATE C - MAX_PLY C \<longrightarrow>
            uci_value C v = Inr (''mate '' @
              show_int (cdiv (if v > 0 then VALUE_MATE C - v + 1 else - VALUE_MATE C - v) 2))"
    by (simp add: uci_value_def)
  have win: "\<forall>k. 1 \<le> k \<and> k \<le> MAX_PLY C \<longrightarrow>
            uci_value C (VALUE_MATE C - k) = Inr (''mate '' @ show_int ((k + 1) div 2))"
    using assms uci_value_mate_in [of C] by blast
  have lose: "\<forall>k. 0 \<le> k \<and> k \<le> MAX_PLY C \<longrightarrow>
            uci_value C (- VALUE_MATE C + k) = Inr (''mate '' @ show_int (- (k div 2)))"
    using assms uci_value_mated_in [of C] by blast
  have m1: "uci_value C (VALUE_MATE C - 1) = Inr ''mate 1''"
    using uci_value_mate_in [of C 1] assms by (simp add: show_int_1)
  have l1: "uci_value C (- VALUE_MATE C + 2) = Inr ''mate -1''"
    using uci_value_mated_in [of C 2] assms by (simp add: show_int_m1)
  from cp mt win lose m1 l1 show ?thesis by blast
qed

theorem uci_value_encoding_witness:
  "2 \<le> MAX_PLY sample_consts \<and> MAX_PLY sample_consts < VALUE_MATE sample_consts
   \<and> VALUE_MATE sample_consts < VALUE_INFINITE sample_consts \<and> PawnValueEg sample_consts \<noteq> 0
   \<and> uci_value sample_consts (- 150) = Inr ''cp -72''
   \<and> uci_value sample_consts 31997 = Inr ''mate 2''
   \<and> uci_value sample_consts 31999 = Inr ''mate 1''
   \<and> uci_value sample_consts (- 31998) = Inr ''mate -1''"
proof -
  have h: "2 \<le> MAX_PLY sample_consts" "MAX_PLY sample_consts < VALUE_MATE sample_consts"
    "VALUE_MATE sample_consts < VALUE_INFINITE sample_consts" "PawnValueEg sample_consts \<noteq> 0"
    by (simp_all add: sample_consts_def)
  note enc = uci_value_encoding [OF h]
  have a: "uci_value sample_consts (- 150) = Inr ''cp -72''"
    using enc [THEN conjunct1, THEN spec, of "- 150"]
    by (simp add: sample_consts_def cdiv_def show_int_def digit_char_def char_of_def)
  have b: "uci_value sample_consts 31997 = Inr ''mate 2''"
    using enc [THEN conjunct2, THEN conjunct2, THEN conjunct1, THEN spec, of 3]
    by (simp add: sample_consts_def show_int_def digit_char_def char_of_def)
  have c: "uci_value sample_consts 31999 = Inr ''mate 1''"
    using enc by (simp add: sample_consts_def)
  have d: "uci_value sample_consts (- 31998) = Inr ''mate -1''"
    using enc by (simp add: sample_consts_def)
  from h a b c d show ?thesis by simp
qed

text \<open>
  The claim as stated asks that the negation of the mate-in-one value print \<^verbatim>\<open>mate -1\<close>.
  It prints \<^verbatim>\<open>mate 0\<close>: the negated value is one ply from mate, and the division by two
  truncates towards zero.
\<close>

theorem uci_value_negated_mate_counterexample:
  "uci_value sample_consts (VALUE_MATE sample_consts - 1) = Inr ''mate 1''
   \<and> uci_value sample_consts (- (VALUE_MATE sample_consts - 1)) = Inr ''mate 0''"
  by (simp add: uci_value_def sample_consts_def cdiv_def show_int_def digit_char_def char_of_def)

section \<open>The move codec: decoding against the legal moves\<close>

lemma tolower_pmsnrk: "c \<in> set pmsnrk \<Longrightarrow> tolower c = c"
  by (auto simp add: pmsnrk_def tolower_def)

lemma length_square: "length (square T s) = 2"
  by (simp add: square_def)

lemma lower5_fixes_last:
  assumes "length mv = 4" and "tolower c = c"
  shows "lower5 (mv @ [c]) = mv @ [c]"
  using assms by (simp add: lower5_def nth_append list_update_append)

lemma lower5_move:
  assumes "move T m = Some s"
  shows "lower5 s = s"
proof (cases "m \<noteq> MOVE_NONE T \<and> m \<noteq> MOVE_NULL T \<and> type_of T m = PROMOTION T")
  case True
  with assms have k: "promotion_type T m < length pmsnrk"
    by (auto simp add: move_def Let_def split: if_splits)
  with True assms have s: "s = (square T (from_sq T m) @ square T (to_sq T m)) @ [pmsnrk ! promotion_type T m]"
    by (simp add: move_def Let_def)
  from k have "tolower (pmsnrk ! promotion_type T m) = pmsnrk ! promotion_type T m"
    by (simp add: tolower_pmsnrk)
  then show ?thesis unfolding s
    by (intro lower5_fixes_last) (simp_all add: length_square)
next
  case False
  with assms have "length s \<noteq> 5"
    by (auto simp add: move_def Let_def length_square split: if_splits)
  then show ?thesis by (simp add: lower5_def)
qed

lemma find_move_found:
  assumes "None \<notin> set (map (move T) ms)" and "distinct (map (move T) ms)"
    and "m \<in> set ms" and "move T m = Some s"
  shows "find_move T s ms = Some m"
  using assms
proof (induction ms)
  case Nil
  then show ?case by simp
next
  case (Cons x xs)
  show ?case
  proof (cases "x = m")
    case True
    with Cons.prems show ?thesis by simp
  next
    case False
    with Cons.prems have m: "m \<in> set xs" by simp
    from Cons.prems obtain t where t: "move T x = Some t"
      by (cases "move T x") auto
    from Cons.prems m have "move T x \<noteq> move T m"
      by (metis distinct.simps(2) image_eqI list.simps(9) set_map)
    with t Cons.prems have "t \<noteq> s" by auto
    moreover from Cons.prems m have "find_move T s xs = Some m"
      by (intro Cons.IH) auto
    ultimately show ?thesis using t by simp
  qed
qed

lemma find_move_absent:
  assumes "None \<notin> set (map (move T) ms)" and "Some s \<notin> set (map (move T) ms)"
  shows "find_move T s ms = Some (MOVE_NONE T)"
  using assms
proof (induction ms)
  case Nil
  then show ?case by simp
next
  case (Cons x xs)
  from Cons.prems obtain t where t: "move T x = Some t"
    by (cases "move T x") auto
  with Cons.prems have "t \<noteq> s" by auto
  moreover from Cons.prems have "find_move T s xs = Some (MOVE_NONE T)"
    by (intro Cons.IH) auto
  ultimately show ?case using t by simp
qed

lemma find_move_sound:
  assumes "find_move T s ms = Some m"
  shows "m = MOVE_NONE T \<or> (m \<in> set ms \<and> move T m = Some s)"
  using assms
  by (induction ms) (auto split: option.splits if_splits)

text \<open>
  C1, as the code has it. Let the legal moves of \<open>p\<close> all have a text (no promotion piece
  beyond the literal) and no two of them the same text. Then decoding the text of a
  legal move gives that move back; a text whose normal form, the text with the fifth
  of five characters in lower case, is the text of no legal move decodes to
  \<^verbatim>\<open>MOVE_NONE\<close>; and whatever else \<^verbatim>\<open>to_move\<close> returns is a legal move whose text is that
  normal form.
\<close>

theorem to_move_roundtrip:
  assumes "None \<notin> set (map (move T) (legal_moves E p))"
    and "distinct (map (move T) (legal_moves E p))"
  shows "(\<forall>m s. m \<in> set (legal_moves E p) \<and> move T m = Some s \<longrightarrow> to_move T E p s = Some m)
       \<and> (\<forall>str. Some (lower5 str) \<notin> set (map (move T) (legal_moves E p)) \<longrightarrow>
             to_move T E p str = Some (MOVE_NONE T))
       \<and> (\<forall>str m. to_move T E p str = Some m \<and> m \<noteq> MOVE_NONE T \<longrightarrow>
             m \<in> set (legal_moves E p) \<and> move T m = Some (lower5 str))"
proof (intro conjI allI impI)
  fix m s
  assume "m \<in> set (legal_moves E p) \<and> move T m = Some s"
  then have m: "m \<in> set (legal_moves E p)" and s: "move T m = Some s"
    by simp_all
  from s have "lower5 s = s"
    by (rule lower5_move)
  moreover from assms m s have "find_move T s (legal_moves E p) = Some m"
    by (rule find_move_found)
  ultimately show "to_move T E p s = Some m"
    by (simp add: to_move_def)
next
  fix str
  assume "Some (lower5 str) \<notin> set (map (move T) (legal_moves E p))"
  with assms(1) have "find_move T (lower5 str) (legal_moves E p) = Some (MOVE_NONE T)"
    by (rule find_move_absent)
  then show "to_move T E p str = Some (MOVE_NONE T)"
    by (simp add: to_move_def)
next
  fix str m
  assume a: "to_move T E p str = Some m \<and> m \<noteq> MOVE_NONE T"
  then show "m \<in> set (legal_moves E p)"
    using find_move_sound [of T "lower5 str" "legal_moves E p" m] by (simp add: to_move_def)
  from a show "move T m = Some (lower5 str)"
    using find_move_sound [of T "lower5 str" "legal_moves E p" m] by (simp add: to_move_def)
qed

lemma sample_promo_texts:
  "map (move sample_types) (legal_moves sample_engine promo_pos)
     = [Some ''a5a6m'', Some ''a1a2'', Some ''a1b1'', Some ''a1b2'']"
  by (simp add: promo_pos_def sample_engine_def sample_legal_def StartFEN_def sample_types_def
      move_def square_def pmsnrk_def char_of_def)

theorem to_move_roundtrip_witness:
  "None \<notin> set (map (move sample_types) (legal_moves sample_engine promo_pos))
   \<and> distinct (map (move sample_types) (legal_moves sample_engine promo_pos))
   \<and> to_move sample_types sample_engine promo_pos ''a5a6m'' = Some (32, 40, 2)
   \<and> to_move sample_types sample_engine promo_pos ''a1b2'' = Some (0, 9, 0)
   \<and> to_move sample_types sample_engine promo_pos ''a5a6'' = Some (MOVE_NONE sample_types)"
proof -
  have d: "None \<notin> set (map (move sample_types) (legal_moves sample_engine promo_pos))"
    by (simp add: sample_promo_texts)
  have i: "distinct (map (move sample_types) (legal_moves sample_engine promo_pos))"
    by (simp add: sample_promo_texts)
  note rt = to_move_roundtrip [OF d i]
  have l: "legal_moves sample_engine promo_pos = [(32, 40, 2), (0, 8, 0), (0, 1, 0), (0, 9, 0)]"
    by (simp add: promo_pos_def sample_engine_def sample_legal_def StartFEN_def)
  have m1: "move sample_types (32, 40, 2) = Some ''a5a6m''"
    using sample_promo_texts by (simp add: l)
  have m2: "move sample_types (0, 9, 0) = Some ''a1b2''"
    using sample_promo_texts by (simp add: l)
  have a: "to_move sample_types sample_engine promo_pos ''a5a6m'' = Some (32, 40, 2)"
    using rt [THEN conjunct1, THEN spec, THEN spec, of "(32, 40, 2)" "''a5a6m''"] m1
    by (simp add: l)
  have b: "to_move sample_types sample_engine promo_pos ''a1b2'' = Some (0, 9, 0)"
    using rt [THEN conjunct1, THEN spec, THEN spec, of "(0, 9, 0)" "''a1b2''"] m2
    by (simp add: l)
  have c: "to_move sample_types sample_engine promo_pos ''a5a6'' = Some (MOVE_NONE sample_types)"
    using rt [THEN conjunct2, THEN conjunct1, THEN spec, of "''a5a6''"]
    by (simp add: sample_promo_texts lower5_def)
  from d i a b c show ?thesis by simp
qed

text \<open>
  The claim as stated asks for \<^verbatim>\<open>MOVE_NONE\<close> on every text that is not the text of a
  legal move. The text \<^verbatim>\<open>a5a6M\<close> is the text of no move, and it decodes to the promotion
  \<^verbatim>\<open>a5a6m\<close>: the upper case letter is accepted on purpose.
\<close>

theorem to_move_uppercase_counterexample:
  "Some ''a5a6M'' \<notin> set (map (move sample_types) (legal_moves sample_engine promo_pos))
   \<and> to_move sample_types sample_engine promo_pos ''a5a6M'' = Some (32, 40, 2)
   \<and> (32, 40, 2) \<noteq> MOVE_NONE sample_types"
proof -
  have l: "legal_moves sample_engine promo_pos = [(32, 40, 2), (0, 8, 0), (0, 1, 0), (0, 9, 0)]"
    by (simp add: promo_pos_def sample_engine_def sample_legal_def StartFEN_def)
  have m1: "move sample_types (32, 40, 2) = Some ''a5a6m''"
    using sample_promo_texts by (simp add: l)
  have low: "lower5 ''a5a6M'' = ''a5a6m''"
    by (simp add: lower5_def tolower_def char_of_def)
  have a: "to_move sample_types sample_engine promo_pos ''a5a6M'' = Some (32, 40, 2)"
    by (simp add: to_move_def low l m1)
  have b: "Some ''a5a6M'' \<notin> set (map (move sample_types) (legal_moves sample_engine promo_pos))"
    by (simp add: sample_promo_texts)
  have c: "(32, 40, 2) \<noteq> MOVE_NONE sample_types"
    by (simp add: sample_types_def)
  from a b c show ?thesis by simp
qed

section \<open>The position command: replaying a move list\<close>

lemma to_move_defined:
  assumes "encodable T E"
  shows "\<exists>m. to_move T E p str = Some m"
proof -
  have "None \<notin> set (map (move T) ms) \<Longrightarrow> \<exists>m. find_move T s ms = Some m" for s ms
    by (induction ms) (auto split: option.splits)
  with assms show ?thesis
    by (simp add: to_move_def encodable_def)
qed

lemma length_history: "length (history E p ms) = Suc (length ms)"
  by (induction ms arbitrary: p) simp_all

lemma history_snoc:
  "history E p (ms @ [m]) = history E p ms @ [state_info E (do_move E (foldl (do_move E) p ms) m)]"
  by (induction ms arbitrary: p) simp_all

lemma history_nonempty: "history E p ms \<noteq> []"
  by (cases ms) simp_all

lemma last_history: "last (history E p ms) = state_info E (foldl (do_move E) p ms)"
  by (induction ms arbitrary: p) (simp_all add: history_nonempty)

lemma play_moves_prefix:
  assumes "encodable T E"
  shows "play_moves T E p sts mv =
           Some (foldl (do_move E) p (decodable_prefix T E p mv),
                 sts @ tl (history E p (decodable_prefix T E p mv)))"
proof (induction mv arbitrary: p sts)
  case Nil
  show ?case by simp
next
  case (Cons t ts)
  from to_move_defined [OF assms, of p t] obtain m where m: "to_move T E p t = Some m"
    by auto
  show ?case
  proof (cases "m = MOVE_NONE T")
    case True
    with m show ?thesis by simp
  next
    case False
    with m Cons.IH [of "do_move E p m" "sts @ [state_info E (do_move E p m)]"]
    show ?thesis
      by (cases "decodable_prefix T E (do_move E p m) ts") simp_all
  qed
qed

lemma set_and_play_replayed:
  assumes "encodable T E"
  shows "set_and_play T E w fen mv = Some (replayed T E w fen mv)"
proof -
  let ?p0 = "pos_set E fen (options w ''UCI_Chess960'' = Some ''true'')"
  let ?ms = "decodable_prefix T E ?p0 mv"
  have "[state_info E ?p0] @ tl (history E ?p0 ?ms) = history E ?p0 ?ms"
    by (cases ?ms) simp_all
  with play_moves_prefix [OF assms, of ?p0 "[state_info E ?p0]" mv]
  show ?thesis
    by (simp add: set_and_play_def replayed_def Let_def)
qed

lemma read_fen_moves:
  assumes "''moves'' \<notin> set ft"
  shows "read_fen acc (ft @ ''moves'' # mv) = (acc @ fen_text ft, mv)"
  using assms by (induction ft arbitrary: acc) (auto simp add: fen_text_def)

lemma read_fen_all:
  assumes "''moves'' \<notin> set ft"
  shows "read_fen acc ft = (acc @ fen_text ft, [])"
  using assms by (induction ft arbitrary: acc) (auto simp add: fen_text_def)

lemma decodable_prefix_length: "length (decodable_prefix T E p mv) \<le> length mv"
  by (induction mv arbitrary: p) (auto split: option.splits)

lemma decodable_prefix_decodes:
  assumes "i < length (decodable_prefix T E p mv)"
  shows "to_move T E (foldl (do_move E) p (take i (decodable_prefix T E p mv))) (mv ! i)
           = Some (decodable_prefix T E p mv ! i)
         \<and> decodable_prefix T E p mv ! i \<noteq> MOVE_NONE T"
  using assms
proof (induction mv arbitrary: p i)
  case Nil
  then show ?case by simp
next
  case (Cons t ts)
  then obtain m where m: "to_move T E p t = Some m" "m \<noteq> MOVE_NONE T"
    by (auto split: option.splits if_splits)
  show ?case
  proof (cases i)
    case 0
    with m show ?thesis by simp
  next
    case (Suc j)
    with Cons.prems m have "j < length (decodable_prefix T E (do_move E p m) ts)" by simp
    from Cons.IH [OF this] m Suc show ?thesis by simp
  qed
qed

lemma decodable_prefix_stops:
  assumes "encodable T E" and "length (decodable_prefix T E p mv) < length mv"
  shows "to_move T E (foldl (do_move E) p (decodable_prefix T E p mv))
           (mv ! length (decodable_prefix T E p mv)) = Some (MOVE_NONE T)"
  using assms(2)
proof (induction mv arbitrary: p)
  case Nil
  then show ?case by simp
next
  case (Cons t ts)
  from to_move_defined [OF assms(1), of p t] obtain m where m: "to_move T E p t = Some m"
    by auto
  show ?case
  proof (cases "m = MOVE_NONE T")
    case True
    with m show ?thesis by simp
  next
    case False
    with m Cons.prems have "length (decodable_prefix T E (do_move E p m) ts) < length ts" by simp
    from Cons.IH [OF this] m False show ?thesis by simp
  qed
qed

text \<open>
  C2. Let every legal move have a text. A \<^verbatim>\<open>position\<close> command of the form
  \<^verbatim>\<open>startpos\<close>, \<^verbatim>\<open>startpos moves ...\<close>, \<^verbatim>\<open>fen ...\<close> or \<^verbatim>\<open>fen ... moves ...\<close> (the FEN words
  free of the word \<^verbatim>\<open>moves\<close>) ends in the session \<open>replayed\<close>: the position is the one set
  from the initial FEN text, or from the given FEN words, with the decodable prefix of
  the move words applied in order, and the state list has one entry more than moves
  were applied, its last entry being the one the position refers to. The decodable
  prefix is what the claim says: word number \<open>i\<close> decodes, against the position reached
  by the moves before it, to move number \<open>i\<close>, which is not \<^verbatim>\<open>MOVE_NONE\<close>; and when words
  are left over, the first of them decodes to \<^verbatim>\<open>MOVE_NONE\<close> in the position reached.
\<close>

theorem position_replays_decodable_prefix:
  assumes "encodable T E" and "''moves'' \<notin> set ft"
  shows "position T E w [''startpos''] = Some (replayed T E w StartFEN [])
       \<and> position T E w (''startpos'' # ''moves'' # mv) = Some (replayed T E w StartFEN mv)
       \<and> position T E w (''fen'' # ft) = Some (replayed T E w (fen_text ft) [])
       \<and> position T E w (''fen'' # ft @ ''moves'' # mv) = Some (replayed T E w (fen_text ft) mv)
       \<and> length (state_list (replayed T E w fen mv))
           = 1 + length (decodable_prefix T E (cur_pos (replayed T E w fen [])) mv)
       \<and> cur_pos (replayed T E w fen mv)
           = foldl (do_move E) (cur_pos (replayed T E w fen []))
               (decodable_prefix T E (cur_pos (replayed T E w fen [])) mv)
       \<and> last (state_list (replayed T E w fen mv)) = state_info E (cur_pos (replayed T E w fen mv))
       \<and> length (decodable_prefix T E p mv) \<le> length mv
       \<and> (\<forall>i < length (decodable_prefix T E p mv).
             to_move T E (foldl (do_move E) p (take i (decodable_prefix T E p mv))) (mv ! i)
               = Some (decodable_prefix T E p mv ! i)
             \<and> decodable_prefix T E p mv ! i \<noteq> MOVE_NONE T)
       \<and> (length (decodable_prefix T E p mv) < length mv \<longrightarrow>
             to_move T E (foldl (do_move E) p (decodable_prefix T E p mv))
               (mv ! length (decodable_prefix T E p mv)) = Some (MOVE_NONE T))"
proof -
  have a: "position T E w [''startpos''] = Some (replayed T E w StartFEN [])"
    using assms(1) by (simp add: position_def set_and_play_replayed)
  have b: "position T E w (''startpos'' # ''moves'' # mv) = Some (replayed T E w StartFEN mv)"
    using assms(1) by (simp add: position_def set_and_play_replayed)
  have c: "position T E w (''fen'' # ft) = Some (replayed T E w (fen_text ft) [])"
    using assms by (simp add: position_def read_fen_all set_and_play_replayed)
  have d: "position T E w (''fen'' # ft @ ''moves'' # mv) = Some (replayed T E w (fen_text ft) mv)"
    using assms by (simp add: position_def read_fen_moves set_and_play_replayed)
  have e: "length (state_list (replayed T E w fen mv))
           = 1 + length (decodable_prefix T E (cur_pos (replayed T E w fen [])) mv)"
    by (simp add: replayed_def Let_def length_history)
  have f: "cur_pos (replayed T E w fen mv)
           = foldl (do_move E) (cur_pos (replayed T E w fen []))
               (decodable_prefix T E (cur_pos (replayed T E w fen [])) mv)"
    by (simp add: replayed_def Let_def)
  have g: "last (state_list (replayed T E w fen mv)) = state_info E (cur_pos (replayed T E w fen mv))"
    by (simp add: replayed_def Let_def last_history)
  have h: "length (decodable_prefix T E p mv) \<le> length mv"
    by (rule decodable_prefix_length)
  have i: "\<forall>i < length (decodable_prefix T E p mv).
             to_move T E (foldl (do_move E) p (take i (decodable_prefix T E p mv))) (mv ! i)
               = Some (decodable_prefix T E p mv ! i)
             \<and> decodable_prefix T E p mv ! i \<noteq> MOVE_NONE T"
    by (intro allI impI decodable_prefix_decodes)
  have j: "length (decodable_prefix T E p mv) < length mv \<longrightarrow>
             to_move T E (foldl (do_move E) p (decodable_prefix T E p mv))
               (mv ! length (decodable_prefix T E p mv)) = Some (MOVE_NONE T)"
    by (intro impI decodable_prefix_stops assms(1))
  show ?thesis by (intro conjI a b c d e f g h i j)
qed


lemma length_pmsnrk: "length pmsnrk = 8"
  by (simp add: pmsnrk_def)

lemma sample_move_defined: "move sample_types m \<noteq> None"
proof -
  have "promotion_type sample_types m < 8"
    by (simp add: sample_types_def)
  then show ?thesis
    by (simp add: move_def Let_def length_pmsnrk)
qed

lemma sample_encodable: "encodable sample_types sample_engine"
  unfolding encodable_def
proof
  fix p :: sample_pos
  have "None \<notin> set (map (move sample_types) ms)" for ms
    by (induction ms) (simp_all add: sample_move_defined [symmetric])
  then show "None \<notin> set (map (move sample_types) (legal_moves sample_engine p))" .
qed

lemma tokens_eval1: "tokens ''startpos moves e3e4 e6e5 e2e4 a3a4'' = [''startpos'', ''moves'', ''e3e4'', ''e6e5'', ''e2e4'', ''a3a4'']"
  by (simp add: tokens_def isspace_def)

lemma sample_texts_white: "map (move sample_types) white_pushes =
   [Some ''a3a4'', Some ''b3b4'', Some ''c3c4'', Some ''d3d4'', Some ''e3e4'', Some ''f3f4'', Some ''g3g4'', Some ''h3h4'']"
  by (simp add: white_pushes_def sample_types_def move_def square_def char_of_def)

lemma sample_texts_black: "map (move sample_types) black_pushes =
   [Some ''a6a5'', Some ''b6b5'', Some ''c6c5'', Some ''d6d5'', Some ''e6e5'', Some ''f6f5'', Some ''g6g5'', Some ''h6h5'']"
  by (simp add: black_pushes_def sample_types_def move_def square_def char_of_def)

lemma find_move_map:
  "map (move T) ms = map Some ts \<Longrightarrow> distinct ts \<Longrightarrow> i < length ms \<Longrightarrow> find_move T (ts ! i) ms = Some (ms ! i)"
proof (induction ms arbitrary: ts i)
  case Nil
  then show ?case by simp
next
  case (Cons m ms)
  then obtain t ts' where ts: "ts = t # ts'" by (cases ts) auto
  with Cons.prems have t: "move T m = Some t" and r: "map (move T) ms = map Some ts'" by auto
  show ?case
  proof (cases i)
    case 0
    with t ts show ?thesis by simp
  next
    case (Suc j)
    with Cons.prems ts have j: "j < length ms" by simp
    from r have "length ts' = length ms" by (metis length_map)
    with j Cons.prems ts have "ts' ! j \<noteq> t" by auto
    with Cons.IH [OF r _ j] Cons.prems ts t Suc show ?thesis by simp
  qed
qed

lemma find_move_map_absent:
  "map (move T) ms = map Some ts \<Longrightarrow> s \<notin> set ts \<Longrightarrow> find_move T s ms = Some (MOVE_NONE T)"
proof (induction ms arbitrary: ts)
  case Nil
  then show ?case by simp
next
  case (Cons m ms)
  then obtain t ts' where ts: "ts = t # ts'" by (cases ts) auto
  with Cons.prems have t: "move T m = Some t" and r: "map (move T) ms = map Some ts'" by auto
  from Cons.IH [OF r] Cons.prems ts t show ?case by simp
qed


lemma sample_prefix_start:
  "decodable_prefix sample_types sample_engine (StartFEN, False, []) [''e3e4'', ''e6e5'', ''e2e4'', ''a3a4'']
     = [(20, 28, 0), (44, 36, 0)]"
  by (simp add: to_move_def lower5_def sample_engine_def sample_legal_def white_pushes_def
      black_pushes_def move_def square_def sample_types_def char_of_def)

lemma sample_prefix_promo:
  "decodable_prefix sample_types sample_engine promo_pos [''a5a6M'', ''a1a2''] = [(32, 40, 2)]"
  by (simp add: to_move_def lower5_def tolower_def sample_engine_def sample_legal_def promo_pos_def
      StartFEN_def move_def square_def sample_types_def char_of_def pmsnrk_def)

theorem position_replays_decodable_prefix_witness:
  "encodable sample_types sample_engine
   \<and> ''moves'' \<notin> set [''k7/8/8/P7/8/8/8/K7'', ''w'', ''0'', ''1'']
   \<and> position sample_types sample_engine sample_session
        [''startpos'', ''moves'', ''e3e4'', ''e6e5'', ''e2e4'', ''a3a4'']
       = Some (sample_session\<lparr>cur_pos := (StartFEN, False, [(20, 28, 0), (44, 36, 0)]),
                               state_list := [0, 1, 2]\<rparr>)
   \<and> position sample_types sample_engine sample_session
        [''fen'', ''k7/8/8/P7/8/8/8/K7'', ''w'', ''0'', ''1'', ''moves'', ''a5a6M'', ''a1a2'']
       = Some (sample_session\<lparr>cur_pos := (''k7/8/8/P7/8/8/8/K7 w 0 1 '', False, [(32, 40, 2)]),
                               state_list := [0, 1]\<rparr>)"
proof -
  have e: "encodable sample_types sample_engine"
    by (rule sample_encodable)
  have n: "''moves'' \<notin> set [''k7/8/8/P7/8/8/8/K7'', ''w'', ''0'', ''1'']"
    by simp
  note inst = position_replays_decodable_prefix [OF e n, of sample_session]
  have p0: "pos_set sample_engine StartFEN (options sample_session ''UCI_Chess960'' = Some ''true'')
              = (StartFEN, False, [])"
    by (simp add: sample_engine_def sample_session_def sample_registry_def)
  have p1: "pos_set sample_engine (fen_text [''k7/8/8/P7/8/8/8/K7'', ''w'', ''0'', ''1''])
              (options sample_session ''UCI_Chess960'' = Some ''true'') = promo_pos"
    by (simp add: sample_engine_def sample_session_def sample_registry_def fen_text_def promo_pos_def)
  have a: "replayed sample_types sample_engine sample_session StartFEN [''e3e4'', ''e6e5'', ''e2e4'', ''a3a4'']
        = sample_session\<lparr>cur_pos := (StartFEN, False, [(20, 28, 0), (44, 36, 0)]), state_list := [0, 1, 2]\<rparr>"
    unfolding replayed_def Let_def p0 sample_prefix_start
    by (simp add: sample_engine_def)
  have b: "replayed sample_types sample_engine sample_session
             (fen_text [''k7/8/8/P7/8/8/8/K7'', ''w'', ''0'', ''1'']) [''a5a6M'', ''a1a2'']
        = sample_session\<lparr>cur_pos := (''k7/8/8/P7/8/8/8/K7 w 0 1 '', False, [(32, 40, 2)]), state_list := [0, 1]\<rparr>"
    unfolding replayed_def Let_def p1 sample_prefix_promo
    by (simp add: sample_engine_def promo_pos_def)
  from inst [of "[''e3e4'', ''e6e5'', ''e2e4'', ''a3a4'']"] a
  have c: "position sample_types sample_engine sample_session
        [''startpos'', ''moves'', ''e3e4'', ''e6e5'', ''e2e4'', ''a3a4'']
       = Some (sample_session\<lparr>cur_pos := (StartFEN, False, [(20, 28, 0), (44, 36, 0)]),
                               state_list := [0, 1, 2]\<rparr>)"
    by simp
  from inst [of "[''a5a6M'', ''a1a2'']"] b
  have d: "position sample_types sample_engine sample_session
        [''fen'', ''k7/8/8/P7/8/8/8/K7'', ''w'', ''0'', ''1'', ''moves'', ''a5a6M'', ''a1a2'']
       = Some (sample_session\<lparr>cur_pos := (''k7/8/8/P7/8/8/8/K7 w 0 1 '', False, [(32, 40, 2)]),
                               state_list := [0, 1]\<rparr>)"
    by simp
  show ?thesis by (intro conjI e n c d)
qed

section \<open>The position command: nothing is kept from the command before\<close>

lemma position_session_frame:
  assumes "position T E w toks = Some w1"
  shows "options w1 = options w \<and> trace w1 = trace w \<and> clock_ticks w1 = clock_ticks w
         \<and> n_searches w1 = n_searches w"
  using assms
  by (auto simp add: position_def set_and_play_def Let_def split: list.splits if_splits option.splits prod.splits)

lemma set_and_play_reset:
  assumes "options w1 = options w" and "trace w1 = trace w" and "clock_ticks w1 = clock_ticks w"
    and "n_searches w1 = n_searches w"
  shows "set_and_play T E w1 fen mv = set_and_play T E w fen mv"
  using assms
  by (cases w, cases w1) (simp add: set_and_play_def Let_def split: option.splits)

text \<open>
  C3, as the code has it. Let a \<^verbatim>\<open>position\<close> command have led from the session \<open>w\<close> to
  \<open>w1\<close>. A second \<^verbatim>\<open>position\<close> command that starts with \<^verbatim>\<open>startpos\<close> or \<^verbatim>\<open>fen\<close> gives from
  \<open>w1\<close> exactly what it gives from \<open>w\<close>; \<^verbatim>\<open>position startpos\<close> after the first command leaves
  the initial position with a state list of one entry, the one the new position refers
  to. A second \<^verbatim>\<open>position\<close> command with another first word, or with none, returns before
  anything is replaced and leaves \<open>w1\<close> as it is.
\<close>

theorem position_resets_session:
  assumes "position T E w cmd1 = Some w1"
  shows "(tok = ''startpos'' \<or> tok = ''fen'' \<longrightarrow>
            position T E w1 (tok # rest) = position T E w (tok # rest))
       \<and> position T E w1 [''startpos'']
           = Some (w\<lparr>cur_pos := pos_set E StartFEN (options w ''UCI_Chess960'' = Some ''true''),
                     state_list := [state_info E (pos_set E StartFEN (options w ''UCI_Chess960'' = Some ''true''))]\<rparr>)
       \<and> (tok \<noteq> ''startpos'' \<and> tok \<noteq> ''fen'' \<longrightarrow> position T E w1 (tok # rest) = Some w1)
       \<and> position T E w1 [] = Some w1"
proof -
  note fr = position_session_frame [OF assms(1)]
  have sp: "set_and_play T E w1 fen mv = set_and_play T E w fen mv" for fen mv
    using fr by (intro set_and_play_reset) simp_all
  have a: "tok = ''startpos'' \<or> tok = ''fen'' \<longrightarrow>
            position T E w1 (tok # rest) = position T E w (tok # rest)"
    by (auto simp add: position_def sp split: prod.splits)
  have "position T E w [''startpos'']
           = Some (w\<lparr>cur_pos := pos_set E StartFEN (options w ''UCI_Chess960'' = Some ''true''),
                     state_list := [state_info E (pos_set E StartFEN (options w ''UCI_Chess960'' = Some ''true''))]\<rparr>)"
    by (simp add: position_def set_and_play_def Let_def)
  moreover have "position T E w1 [''startpos''] = position T E w [''startpos'']"
    by (simp add: position_def sp)
  ultimately have b: "position T E w1 [''startpos'']
           = Some (w\<lparr>cur_pos := pos_set E StartFEN (options w ''UCI_Chess960'' = Some ''true''),
                     state_list := [state_info E (pos_set E StartFEN (options w ''UCI_Chess960'' = Some ''true''))]\<rparr>)"
    by simp
  have c: "tok \<noteq> ''startpos'' \<and> tok \<noteq> ''fen'' \<longrightarrow> position T E w1 (tok # rest) = Some w1"
    by (simp add: position_def)
  have d: "position T E w1 [] = Some w1"
    by (simp add: position_def)
  show ?thesis by (intro conjI a b c d)
qed

lemma sample_position_two_moves:
  "position sample_types sample_engine sample_session [''startpos'', ''moves'', ''e3e4'', ''e6e5'']
     = Some (sample_session\<lparr>cur_pos := (StartFEN, False, [(20, 28, 0), (44, 36, 0)]),
                             state_list := [0, 1, 2]\<rparr>)"
  by (simp add: position_def set_and_play_def Let_def to_move_def lower5_def sample_engine_def
      sample_legal_def white_pushes_def black_pushes_def move_def square_def sample_types_def
      char_of_def sample_session_def sample_registry_def)

theorem position_resets_session_witness:
  "position sample_types sample_engine sample_session [''startpos'', ''moves'', ''e3e4'', ''e6e5'']
     = Some (sample_session\<lparr>cur_pos := (StartFEN, False, [(20, 28, 0), (44, 36, 0)]),
                             state_list := [0, 1, 2]\<rparr>)
   \<and> position sample_types sample_engine
       (sample_session\<lparr>cur_pos := (StartFEN, False, [(20, 28, 0), (44, 36, 0)]), state_list := [0, 1, 2]\<rparr>)
       [''startpos'']
     = position sample_types sample_engine sample_session [''startpos'']
   \<and> position sample_types sample_engine
       (sample_session\<lparr>cur_pos := (StartFEN, False, [(20, 28, 0), (44, 36, 0)]), state_list := [0, 1, 2]\<rparr>)
       [''startpos'']
     = Some (sample_session\<lparr>cur_pos := (StartFEN, False, []), state_list := [0]\<rparr>)"
proof -
  let ?w1 = "sample_session\<lparr>cur_pos := (StartFEN, False, [(20, 28, 0), (44, 36, 0)]), state_list := [0, 1, 2]\<rparr>"
  note first = sample_position_two_moves
  have tok: "''startpos'' = ''startpos'' \<or> ''startpos'' = ''fen''"
    by simp
  note inst = position_resets_session [OF first, of "''startpos''" "[]"]
  have p0: "pos_set sample_engine StartFEN (options sample_session ''UCI_Chess960'' = Some ''true'')
              = (StartFEN, False, [])"
    by (simp add: sample_engine_def sample_session_def sample_registry_def)
  have s0: "state_info sample_engine (StartFEN, False, []) = 0"
    by (simp add: sample_engine_def)
  have a: "position sample_types sample_engine ?w1 [''startpos'']
     = position sample_types sample_engine sample_session [''startpos'']"
    using inst [THEN conjunct1] tok by (rule mp)
  have b: "position sample_types sample_engine ?w1 [''startpos'']
     = Some (sample_session\<lparr>cur_pos := (StartFEN, False, []), state_list := [0]\<rparr>)"
    using inst [THEN conjunct2, THEN conjunct1] unfolding p0 s0 .
  show ?thesis by (intro conjI first a b)
qed

text \<open>
  The claim as stated asks that every second \<^verbatim>\<open>position\<close> command reset the session.
  After \<^verbatim>\<open>position startpos moves e3e4 e6e5\<close> the command \<^verbatim>\<open>position moves a3a4\<close>, whose
  first word is neither \<^verbatim>\<open>startpos\<close> nor \<^verbatim>\<open>fen\<close>, leaves the two moves played and the
  state list of three entries, while the same command alone leaves the initial session.
\<close>

theorem position_ignored_counterexample:
  "position sample_types sample_engine sample_session [''startpos'', ''moves'', ''e3e4'', ''e6e5'']
     = Some (sample_session\<lparr>cur_pos := (StartFEN, False, [(20, 28, 0), (44, 36, 0)]),
                             state_list := [0, 1, 2]\<rparr>)
   \<and> position sample_types sample_engine
       (sample_session\<lparr>cur_pos := (StartFEN, False, [(20, 28, 0), (44, 36, 0)]), state_list := [0, 1, 2]\<rparr>)
       [''moves'', ''a3a4'']
     = Some (sample_session\<lparr>cur_pos := (StartFEN, False, [(20, 28, 0), (44, 36, 0)]),
                             state_list := [0, 1, 2]\<rparr>)
   \<and> position sample_types sample_engine sample_session [''moves'', ''a3a4''] = Some sample_session
   \<and> cur_pos (sample_session\<lparr>cur_pos := (StartFEN, False, [(20, 28, 0), (44, 36, 0)]),
                              state_list := [0, 1, 2]\<rparr>) \<noteq> cur_pos sample_session
   \<and> state_list (sample_session\<lparr>cur_pos := (StartFEN, False, [(20, 28, 0), (44, 36, 0)]),
                              state_list := [0, 1, 2]\<rparr>) \<noteq> state_list sample_session"
proof -
  let ?w1 = "sample_session\<lparr>cur_pos := (StartFEN, False, [(20, 28, 0), (44, 36, 0)]), state_list := [0, 1, 2]\<rparr>"
  have a: "position sample_types sample_engine ?w1 [''moves'', ''a3a4''] = Some ?w1"
    by (simp add: position_def)
  have b: "position sample_types sample_engine sample_session [''moves'', ''a3a4''] = Some sample_session"
    by (simp add: position_def)
  have c: "cur_pos ?w1 \<noteq> cur_pos sample_session"
    by (simp add: sample_session_def)
  have d: "state_list ?w1 \<noteq> state_list sample_session"
    by (simp add: sample_session_def)
  show ?thesis by (intro conjI sample_position_two_moves a b c d)
qed

section \<open>The setoption command\<close>

lemma split_ws_nonempty: "[] \<notin> set (split_ws cur cs)"
  by (induction cs arbitrary: cur) simp_all

lemma tokens_nonempty: "[] \<notin> set (tokens line)"
  by (simp add: tokens_def split_ws_nonempty)

lemma join_sp_empty_iff: "[] \<notin> set ts \<Longrightarrow> join_sp ts = [] \<longleftrightarrow> ts = []"
  by (induction ts rule: join_sp.induct) auto

lemma join_sp_snoc:
  "[] \<notin> set ts \<Longrightarrow> join_sp (ts @ [t]) = join_sp ts @ (if join_sp ts = [] then [] else '' '') @ t"
  by (induction ts rule: join_sp.induct) (auto simp add: join_sp_empty_iff)

lemma read_name_join:
  assumes "[] \<notin> set pre" and "[] \<notin> set toks"
  shows "read_name (join_sp pre) toks
           = (join_sp (pre @ takeWhile (\<lambda>t. t \<noteq> ''value'') toks),
              drop 1 (dropWhile (\<lambda>t. t \<noteq> ''value'') toks))"
  using assms
proof (induction toks arbitrary: pre)
  case Nil
  then show ?case by simp
next
  case (Cons t ts)
  show ?case
  proof (cases "t = ''value''")
    case True
    then show ?thesis by simp
  next
    case False
    from Cons.prems have "[] \<notin> set (pre @ [t])" by auto
    from Cons.IH [OF this] Cons.prems False show ?thesis
      by (simp add: join_sp_snoc)
  qed
qed

lemma read_value_join:
  assumes "[] \<notin> set pre" and "[] \<notin> set toks"
  shows "read_value (join_sp pre) toks = join_sp (pre @ toks)"
  using assms
proof (induction toks arbitrary: pre)
  case Nil
  then show ?case by simp
next
  case (Cons t ts)
  from Cons.prems have "[] \<notin> set (pre @ [t])" by auto
  from Cons.IH [OF this] Cons.prems show ?case
    by (simp add: join_sp_snoc)
qed

lemma setoption_parsed:
  assumes "[] \<notin> set toks"
  shows "setoption w toks =
           (if options w (option_name toks) \<noteq> None
            then w\<lparr>options := (options w)(option_name toks \<mapsto> option_value toks)\<rparr>
            else emit (Cout (''No such option: '' @ option_name toks)) w)"
proof -
  from assms have d: "[] \<notin> set (drop 1 toks)"
    by (auto dest: in_set_dropD)
  then have v: "[] \<notin> set (drop 1 (dropWhile (\<lambda>t. t \<noteq> ''value'') (drop 1 toks)))"
    by (auto dest!: in_set_dropD set_dropWhileD)
  have "read_name [] (drop 1 toks)
          = (option_name toks, drop 1 (dropWhile (\<lambda>t. t \<noteq> ''value'') (drop 1 toks)))"
    using read_name_join [of "[]" "drop 1 toks"] d by (simp add: option_name_def)
  moreover have "read_value [] (drop 1 (dropWhile (\<lambda>t. t \<noteq> ''value'') (drop 1 toks)))
          = option_value toks"
    using read_value_join [of "[]" "drop 1 (dropWhile (\<lambda>t. t \<noteq> ''value'') (drop 1 toks))"] v
    by (simp add: option_value_def)
  ultimately show ?thesis
    by (simp add: setoption_def Let_def)
qed

text \<open>
  C7. For a \<^verbatim>\<open>setoption\<close> command (its words, none of them empty, as the tokenizer
  yields them) the option name is made of the words after the first up to the keyword
  \<^verbatim>\<open>value\<close>, joined with single blanks, and the option value of the words after that
  keyword, joined in the same way. If the registry has an entry of that name, the entry
  is set to exactly that value and nothing else changes; if it has none, the line
  \<^verbatim>\<open>No such option: \<close> followed by the name is written and the registry stays as it was.
\<close>

theorem setoption_sets_or_reports:
  assumes "[] \<notin> set toks"
  shows "(options w (option_name toks) \<noteq> None \<longrightarrow>
            setoption w toks = w\<lparr>options := (options w)(option_name toks \<mapsto> option_value toks)\<rparr>)
       \<and> (options w (option_name toks) = None \<longrightarrow>
            setoption w toks = emit (Cout (''No such option: '' @ option_name toks)) w
            \<and> options (setoption w toks) = options w)
       \<and> (''value'' \<notin> set nm \<longrightarrow>
            option_name (t0 # nm @ ''value'' # vs) = join_sp nm
            \<and> option_value (t0 # nm @ ''value'' # vs) = join_sp vs)"
proof (intro conjI impI)
  assume "options w (option_name toks) \<noteq> None"
  then show "setoption w toks = w\<lparr>options := (options w)(option_name toks \<mapsto> option_value toks)\<rparr>"
    by (simp add: setoption_parsed [OF assms])
next
  assume n: "options w (option_name toks) = None"
  then show "setoption w toks = emit (Cout (''No such option: '' @ option_name toks)) w"
    by (simp add: setoption_parsed [OF assms])
  from n show "options (setoption w toks) = options w"
    by (simp add: setoption_parsed [OF assms] emit_def)
next
  assume v: "''value'' \<notin> set nm"
  then have tw: "takeWhile (\<lambda>t. t \<noteq> ''value'') (nm @ ''value'' # vs) = nm"
    by (induction nm) auto
  from v have dw: "dropWhile (\<lambda>t. t \<noteq> ''value'') (nm @ ''value'' # vs) = ''value'' # vs"
    by (induction nm) auto
  from tw show "option_name (t0 # nm @ ''value'' # vs) = join_sp nm"
    by (simp add: option_name_def)
  from dw show "option_value (t0 # nm @ ''value'' # vs) = join_sp vs"
    by (simp add: option_value_def)
qed

theorem setoption_sets_or_reports_witness:
  "[] \<notin> set [''name'', ''UCI_Chess960'', ''value'', ''true'']
   \<and> [] \<notin> set [''name'', ''DoesNotExist'', ''value'', ''5'']
   \<and> setoption sample_session [''name'', ''UCI_Chess960'', ''value'', ''true'']
       = sample_session\<lparr>options := sample_registry(''UCI_Chess960'' \<mapsto> ''true'')\<rparr>
   \<and> setoption sample_session [''name'', ''DoesNotExist'', ''value'', ''5'']
       = emit (Cout ''No such option: DoesNotExist'') sample_session
   \<and> options (setoption sample_session [''name'', ''DoesNotExist'', ''value'', ''5'']) = sample_registry"
proof -
  have h1: "[] \<notin> set [''name'', ''UCI_Chess960'', ''value'', ''true'']"
    by simp
  have h2: "[] \<notin> set [''name'', ''DoesNotExist'', ''value'', ''5'']"
    by simp
  have n1: "option_name [''name'', ''UCI_Chess960'', ''value'', ''true''] = ''UCI_Chess960''"
    and v1: "option_value [''name'', ''UCI_Chess960'', ''value'', ''true''] = ''true''"
    and n2: "option_name [''name'', ''DoesNotExist'', ''value'', ''5''] = ''DoesNotExist''"
    by (simp_all add: option_name_def option_value_def)
  have o: "options sample_session = sample_registry"
    by (simp add: sample_session_def)
  have a: "setoption sample_session [''name'', ''UCI_Chess960'', ''value'', ''true'']
       = sample_session\<lparr>options := sample_registry(''UCI_Chess960'' \<mapsto> ''true'')\<rparr>"
    using setoption_sets_or_reports [OF h1, of sample_session, THEN conjunct1]
    unfolding n1 v1 o by (simp add: sample_registry_def)
  have none: "sample_registry ''DoesNotExist'' = None"
    by (simp add: sample_registry_def)
  have b0: "setoption sample_session [''name'', ''DoesNotExist'', ''value'', ''5'']
       = emit (Cout (''No such option: '' @ ''DoesNotExist'')) sample_session
     \<and> options (setoption sample_session [''name'', ''DoesNotExist'', ''value'', ''5'']) = sample_registry"
    using setoption_sets_or_reports [OF h2, of sample_session, THEN conjunct2, THEN conjunct1,
        unfolded n2 o] none
    by (rule mp)
  from b0 have b: "setoption sample_session [''name'', ''DoesNotExist'', ''value'', ''5'']
       = emit (Cout ''No such option: DoesNotExist'') sample_session"
    by simp
  from b0 have c: "options (setoption sample_session [''name'', ''DoesNotExist'', ''value'', ''5''])
       = sample_registry"
    by (rule conjunct2)
  show ?thesis by (intro conjI h1 h2 a b c)
qed

text \<open>
  C10. When no word after the first is the keyword \<^verbatim>\<open>value\<close>, all these words make up the
  option name and the value is the empty string; an entry of that name is overwritten
  with the empty string.
\<close>

theorem setoption_without_value:
  assumes "[] \<notin> set toks" and "''value'' \<notin> set (drop 1 toks)"
  shows "option_name toks = join_sp (drop 1 toks)
       \<and> option_value toks = []
       \<and> (options w (join_sp (drop 1 toks)) \<noteq> None \<longrightarrow>
            setoption w toks = w\<lparr>options := (options w)(join_sp (drop 1 toks) \<mapsto> [])\<rparr>)
       \<and> (options w (join_sp (drop 1 toks)) = None \<longrightarrow>
            setoption w toks = emit (Cout (''No such option: '' @ join_sp (drop 1 toks))) w)"
proof -
  from assms(2) have tw: "takeWhile (\<lambda>t. t \<noteq> ''value'') (drop 1 toks) = drop 1 toks"
    by (intro takeWhile_eq_all_conv [THEN iffD2]) auto
  from assms(2) have dw: "dropWhile (\<lambda>t. t \<noteq> ''value'') (drop 1 toks) = []"
    by (intro dropWhile_eq_Nil_conv [THEN iffD2]) auto
  have n: "option_name toks = join_sp (drop 1 toks)"
    unfolding option_name_def tw ..
  have v: "option_value toks = []"
    unfolding option_value_def dw by simp
  from setoption_parsed [OF assms(1), of w] n v show ?thesis
    by simp
qed

theorem setoption_without_value_witness:
  "[] \<notin> set [''name'', ''Skill'', ''Level'']
   \<and> ''value'' \<notin> set (drop 1 [''name'', ''Skill'', ''Level''])
   \<and> setoption sample_session [''name'', ''Skill'', ''Level'']
       = sample_session\<lparr>options := sample_registry(''Skill Level'' \<mapsto> [])\<rparr>"
proof -
  have h1: "[] \<notin> set [''name'', ''Skill'', ''Level'']"
    by simp
  have h2: "''value'' \<notin> set (drop 1 [''name'', ''Skill'', ''Level''])"
    by simp
  have j: "join_sp (drop 1 [''name'', ''Skill'', ''Level'']) = ''Skill Level''"
    by simp
  have o: "options sample_session = sample_registry"
    by (simp add: sample_session_def)
  have "setoption sample_session [''name'', ''Skill'', ''Level'']
       = sample_session\<lparr>options := sample_registry(''Skill Level'' \<mapsto> [])\<rparr>"
    using setoption_without_value [OF h1 h2, of sample_session, THEN conjunct2, THEN conjunct2, THEN conjunct1]
    unfolding j o by (simp add: sample_registry_def)
  with h1 h2 show ?thesis by simp
qed

section \<open>The go command: the vocabulary of the limits parser\<close>

lemma get_num_numeral:
  assumes "numeral_value t = Some v" and "lo \<le> v" and "v \<le> hi"
  shows "get_num lo hi (t # ts) old = (v, ts)"
proof -
  let ?body = "if take 1 t = ''-'' \<or> take 1 t = ''+'' then drop 1 t else t"
  from assms(1) have b: "?body \<noteq> []" and d: "list_all is_digit ?body"
    and v: "v = (if take 1 t = ''-'' then - digits_val ?body else digits_val ?body)"
    by (simp_all add: numeral_value_def Let_def split: if_splits)
  from d have tw: "takeWhile is_digit ?body = ?body"
    by (simp add: takeWhile_eq_all_conv list_all_iff)
  from d have dw: "dropWhile is_digit ?body = []"
    by (simp add: dropWhile_eq_Nil_conv list_all_iff)
  show ?thesis
    unfolding get_num_def list.case Let_def tw dw
    using b v assms(2,3) by simp
qed

lemma get_num_fits:
  assumes "fits lo hi t"
  shows "\<exists>v. numeral_value t = Some v \<and> get_num lo hi (t # ts) old = (v, ts)"
  using assms get_num_numeral [of t _ lo hi ts old]
  by (auto simp add: fits_def split: option.splits)

lemma read_searchmoves_map:
  assumes "encodable T E"
  shows "\<exists>ms. read_searchmoves T E p acc rest = Some (acc @ ms)
              \<and> map Some ms = map (to_move T E p) rest"
proof (induction rest arbitrary: acc)
  case Nil
  show ?case by simp
next
  case (Cons t ts)
  from to_move_defined [OF assms, of p t] obtain m where m: "to_move T E p t = Some m"
    by auto
  from Cons.IH [of "acc @ [m]"] obtain ms where
    "read_searchmoves T E p (acc @ [m]) ts = Some ((acc @ [m]) @ ms)"
    "map Some ms = map (to_move T E p) ts"
    by auto
  with m have "read_searchmoves T E p acc (t # ts) = Some (acc @ (m # ms))
      \<and> map Some (m # ms) = map (to_move T E p) (t # ts)"
    by simp
  then show ?case by blast
qed

lemma go_loop_searchmoves:
  assumes "encodable T E"
  shows "\<exists>ms. go_loop T E p L pm (''searchmoves'' # rest)
                = Some (L\<lparr>searchmoves := searchmoves L @ ms\<rparr>, pm)
              \<and> map Some ms = map (to_move T E p) rest"
proof -
  from read_searchmoves_map [OF assms, of p "searchmoves L" rest] obtain ms where
    "read_searchmoves T E p (searchmoves L) rest = Some (searchmoves L @ ms)"
    "map Some ms = map (to_move T E p) rest"
    by auto
  then have "go_loop T E p L pm (''searchmoves'' # rest)
                = Some (L\<lparr>searchmoves := searchmoves L @ ms\<rparr>, pm)
              \<and> map Some ms = map (to_move T E p) rest"
    by simp
  then show ?thesis by blast
qed

lemma go_loop_int64:
  assumes "numeral_value n = Some v" and "- (2 ^ 63) \<le> v" and "v \<le> 2 ^ 63 - 1"
  shows "go_loop T E p L pm (''wtime'' # n # rest) = go_loop T E p (L\<lparr>time_WHITE := v\<rparr>) pm rest"
    and "go_loop T E p L pm (''btime'' # n # rest) = go_loop T E p (L\<lparr>time_BLACK := v\<rparr>) pm rest"
    and "go_loop T E p L pm (''winc'' # n # rest) = go_loop T E p (L\<lparr>inc_WHITE := v\<rparr>) pm rest"
    and "go_loop T E p L pm (''binc'' # n # rest) = go_loop T E p (L\<lparr>inc_BLACK := v\<rparr>) pm rest"
    and "go_loop T E p L pm (''nodes'' # n # rest) = go_loop T E p (L\<lparr>nodes := v\<rparr>) pm rest"
    and "go_loop T E p L pm (''movetime'' # n # rest) = go_loop T E p (L\<lparr>movetime := v\<rparr>) pm rest"
  using get_num_numeral [OF assms] by (simp_all add: get_int64_def)

lemma go_loop_int:
  assumes "numeral_value n = Some v" and "- (2 ^ 31) \<le> v" and "v \<le> 2 ^ 31 - 1"
  shows "go_loop T E p L pm (''movestogo'' # n # rest) = go_loop T E p (L\<lparr>movestogo := v\<rparr>) pm rest"
    and "go_loop T E p L pm (''depth'' # n # rest) = go_loop T E p (L\<lparr>depth := v\<rparr>) pm rest"
    and "go_loop T E p L pm (''mate'' # n # rest) = go_loop T E p (L\<lparr>mate := v\<rparr>) pm rest"
    and "go_loop T E p L pm (''perft'' # n # rest) = go_loop T E p (L\<lparr>perft := v\<rparr>) pm rest"
  using get_num_numeral [OF assms] by (simp_all add: get_int_def)

lemma go_loop_flags:
  "go_loop T E p L pm (''infinite'' # rest) = go_loop T E p (L\<lparr>infinite_flag := 1\<rparr>) pm rest"
  "go_loop T E p L pm (''ponder'' # rest) = go_loop T E p L True rest"
  by simp_all

lemma go_loop_unrecognized:
  assumes "t \<notin> set go_keywords"
  shows "go_loop T E p L pm (t # rest) = go_loop T E p L pm rest"
  using assms by (simp add: go_keywords_def int64_keywords_def int_keywords_def)

lemma get_num_numeral_clamped:
  assumes "numeral_value t = Some v"
  shows "get_num lo hi (t # ts) old =
           (if v < lo then (lo, []) else if hi < v then (hi, []) else (v, ts))"
proof -
  let ?body = "if take 1 t = ''-'' \<or> take 1 t = ''+'' then drop 1 t else t"
  from assms(1) have b: "?body \<noteq> []" and d: "list_all is_digit ?body"
    and v: "v = (if take 1 t = ''-'' then - digits_val ?body else digits_val ?body)"
    by (simp_all add: numeral_value_def Let_def split: if_splits)
  from d have tw: "takeWhile is_digit ?body = ?body"
    by (simp add: takeWhile_eq_all_conv list_all_iff)
  from d have dw: "dropWhile is_digit ?body = []"
    by (simp add: dropWhile_eq_Nil_conv list_all_iff)
  show ?thesis
    unfolding get_num_def list.case Let_def tw dw
    using b v by simp
qed

lemma go_loop_numeric_consumes:
  assumes "kw \<in> set (int64_keywords @ int_keywords)" and "numeral_value n = Some v"
  shows "\<exists>L'. searchmoves L' = searchmoves L
           \<and> (go_loop T E p L pm (kw # n # rest) = go_loop T E p L' pm rest
              \<or> go_loop T E p L pm (kw # n # rest) = Some (L', pm))"
proof -
  note g64 = get_num_numeral_clamped [OF assms(2), of "- (2 ^ 63)" "2 ^ 63 - 1" rest]
  note g32 = get_num_numeral_clamped [OF assms(2), of "- (2 ^ 31)" "2 ^ 31 - 1" rest]
  from assms(1) have "kw = ''wtime'' \<or> kw = ''btime'' \<or> kw = ''winc'' \<or> kw = ''binc''
      \<or> kw = ''nodes'' \<or> kw = ''movetime'' \<or> kw = ''movestogo'' \<or> kw = ''depth''
      \<or> kw = ''mate'' \<or> kw = ''perft''"
    by (simp add: int64_keywords_def int_keywords_def)
  then show ?thesis
  proof (elim disjE)
    assume k: "kw = ''wtime''"
    let ?L = "L\<lparr>time_WHITE := fst (get_int64 (n # rest) (time_WHITE L))\<rparr>"
    have "searchmoves ?L = searchmoves L
        \<and> (go_loop T E p L pm (kw # n # rest) = go_loop T E p ?L pm rest
           \<or> go_loop T E p L pm (kw # n # rest) = Some (?L, pm))"
      using g64 unfolding k by (simp add: go_loop.simps(2) get_int64_def)
    then show ?thesis by blast
  next
    assume k: "kw = ''btime''"
    let ?L = "L\<lparr>time_BLACK := fst (get_int64 (n # rest) (time_BLACK L))\<rparr>"
    have "searchmoves ?L = searchmoves L
        \<and> (go_loop T E p L pm (kw # n # rest) = go_loop T E p ?L pm rest
           \<or> go_loop T E p L pm (kw # n # rest) = Some (?L, pm))"
      using g64 unfolding k by (simp add: go_loop.simps(2) get_int64_def)
    then show ?thesis by blast
  next
    assume k: "kw = ''winc''"
    let ?L = "L\<lparr>inc_WHITE := fst (get_int64 (n # rest) (inc_WHITE L))\<rparr>"
    have "searchmoves ?L = searchmoves L
        \<and> (go_loop T E p L pm (kw # n # rest) = go_loop T E p ?L pm rest
           \<or> go_loop T E p L pm (kw # n # rest) = Some (?L, pm))"
      using g64 unfolding k by (simp add: go_loop.simps(2) get_int64_def)
    then show ?thesis by blast
  next
    assume k: "kw = ''binc''"
    let ?L = "L\<lparr>inc_BLACK := fst (get_int64 (n # rest) (inc_BLACK L))\<rparr>"
    have "searchmoves ?L = searchmoves L
        \<and> (go_loop T E p L pm (kw # n # rest) = go_loop T E p ?L pm rest
           \<or> go_loop T E p L pm (kw # n # rest) = Some (?L, pm))"
      using g64 unfolding k by (simp add: go_loop.simps(2) get_int64_def)
    then show ?thesis by blast
  next
    assume k: "kw = ''nodes''"
    let ?L = "L\<lparr>nodes := fst (get_int64 (n # rest) (nodes L))\<rparr>"
    have "searchmoves ?L = searchmoves L
        \<and> (go_loop T E p L pm (kw # n # rest) = go_loop T E p ?L pm rest
           \<or> go_loop T E p L pm (kw # n # rest) = Some (?L, pm))"
      using g64 unfolding k by (simp add: go_loop.simps(2) get_int64_def)
    then show ?thesis by blast
  next
    assume k: "kw = ''movetime''"
    let ?L = "L\<lparr>movetime := fst (get_int64 (n # rest) (movetime L))\<rparr>"
    have "searchmoves ?L = searchmoves L
        \<and> (go_loop T E p L pm (kw # n # rest) = go_loop T E p ?L pm rest
           \<or> go_loop T E p L pm (kw # n # rest) = Some (?L, pm))"
      using g64 unfolding k by (simp add: go_loop.simps(2) get_int64_def)
    then show ?thesis by blast
  next
    assume k: "kw = ''movestogo''"
    let ?L = "L\<lparr>movestogo := fst (get_int (n # rest) (movestogo L))\<rparr>"
    have "searchmoves ?L = searchmoves L
        \<and> (go_loop T E p L pm (kw # n # rest) = go_loop T E p ?L pm rest
           \<or> go_loop T E p L pm (kw # n # rest) = Some (?L, pm))"
      using g32 unfolding k by (simp add: go_loop.simps(2) get_int_def)
    then show ?thesis by blast
  next
    assume k: "kw = ''depth''"
    let ?L = "L\<lparr>depth := fst (get_int (n # rest) (depth L))\<rparr>"
    have "searchmoves ?L = searchmoves L
        \<and> (go_loop T E p L pm (kw # n # rest) = go_loop T E p ?L pm rest
           \<or> go_loop T E p L pm (kw # n # rest) = Some (?L, pm))"
      using g32 unfolding k by (simp add: go_loop.simps(2) get_int_def)
    then show ?thesis by blast
  next
    assume k: "kw = ''mate''"
    let ?L = "L\<lparr>mate := fst (get_int (n # rest) (mate L))\<rparr>"
    have "searchmoves ?L = searchmoves L
        \<and> (go_loop T E p L pm (kw # n # rest) = go_loop T E p ?L pm rest
           \<or> go_loop T E p L pm (kw # n # rest) = Some (?L, pm))"
      using g32 unfolding k by (simp add: go_loop.simps(2) get_int_def)
    then show ?thesis by blast
  next
    assume k: "kw = ''perft''"
    let ?L = "L\<lparr>perft := fst (get_int (n # rest) (perft L))\<rparr>"
    have "searchmoves ?L = searchmoves L
        \<and> (go_loop T E p L pm (kw # n # rest) = go_loop T E p ?L pm rest
           \<or> go_loop T E p L pm (kw # n # rest) = Some (?L, pm))"
      using g32 unfolding k by (simp add: go_loop.simps(2) get_int_def)
    then show ?thesis by blast
  qed
qed


text \<open>
  C8. Let every legal move have a text, and let the loop of \<^verbatim>\<open>go\<close> stand before the word
  named, with any limits collected so far. At \<^verbatim>\<open>searchmoves\<close> every remaining word is
  decoded by \<^verbatim>\<open>to_move\<close> and appended to the list of root moves, in order, and the loop
  ends there with all other fields and the ponder flag as they were, so no later word
  is taken as a keyword. Each of \<^verbatim>\<open>wtime\<close>, \<^verbatim>\<open>btime\<close>, \<^verbatim>\<open>winc\<close>, \<^verbatim>\<open>binc\<close>, \<^verbatim>\<open>nodes\<close>, \<^verbatim>\<open>movetime\<close>
  (64 bits) and \<^verbatim>\<open>movestogo\<close>, \<^verbatim>\<open>depth\<close>, \<^verbatim>\<open>mate\<close>, \<^verbatim>\<open>perft\<close> (32 bits) followed by a numeric
  word in range stores the value of that word in its field and goes on behind it.
  \<^verbatim>\<open>infinite\<close> and \<^verbatim>\<open>ponder\<close> set their flag and take no argument. A word outside the
  vocabulary changes nothing. Whatever its value, a numeric word behind one of the ten
  numeric keywords is consumed: the loop goes on behind it or, the value being out of
  range, ends there; the list of root moves is as it was.
\<close>

theorem go_loop_vocabulary:
  assumes "encodable T E"
  shows "(\<exists>ms. go_loop T E p L pm (''searchmoves'' # rest)
                = Some (L\<lparr>searchmoves := searchmoves L @ ms\<rparr>, pm)
              \<and> map Some ms = map (to_move T E p) rest)
       \<and> (numeral_value n = Some v \<and> - (2 ^ 63) \<le> v \<and> v \<le> 2 ^ 63 - 1 \<longrightarrow>
            go_loop T E p L pm (''wtime'' # n # rest) = go_loop T E p (L\<lparr>time_WHITE := v\<rparr>) pm rest
          \<and> go_loop T E p L pm (''btime'' # n # rest) = go_loop T E p (L\<lparr>time_BLACK := v\<rparr>) pm rest
          \<and> go_loop T E p L pm (''winc'' # n # rest) = go_loop T E p (L\<lparr>inc_WHITE := v\<rparr>) pm rest
          \<and> go_loop T E p L pm (''binc'' # n # rest) = go_loop T E p (L\<lparr>inc_BLACK := v\<rparr>) pm rest
          \<and> go_loop T E p L pm (''nodes'' # n # rest) = go_loop T E p (L\<lparr>nodes := v\<rparr>) pm rest
          \<and> go_loop T E p L pm (''movetime'' # n # rest) = go_loop T E p (L\<lparr>movetime := v\<rparr>) pm rest)
       \<and> (numeral_value n = Some v \<and> - (2 ^ 31) \<le> v \<and> v \<le> 2 ^ 31 - 1 \<longrightarrow>
            go_loop T E p L pm (''movestogo'' # n # rest) = go_loop T E p (L\<lparr>movestogo := v\<rparr>) pm rest
          \<and> go_loop T E p L pm (''depth'' # n # rest) = go_loop T E p (L\<lparr>depth := v\<rparr>) pm rest
          \<and> go_loop T E p L pm (''mate'' # n # rest) = go_loop T E p (L\<lparr>mate := v\<rparr>) pm rest
          \<and> go_loop T E p L pm (''perft'' # n # rest) = go_loop T E p (L\<lparr>perft := v\<rparr>) pm rest)
       \<and> go_loop T E p L pm (''infinite'' # rest) = go_loop T E p (L\<lparr>infinite_flag := 1\<rparr>) pm rest
       \<and> go_loop T E p L pm (''ponder'' # rest) = go_loop T E p L True rest
       \<and> (t \<notin> set go_keywords \<longrightarrow> go_loop T E p L pm (t # rest) = go_loop T E p L pm rest)
       \<and> (kw \<in> set (int64_keywords @ int_keywords) \<and> numeral_value n = Some v \<longrightarrow>
            (\<exists>L'. searchmoves L' = searchmoves L
               \<and> (go_loop T E p L pm (kw # n # rest) = go_loop T E p L' pm rest
                  \<or> go_loop T E p L pm (kw # n # rest) = Some (L', pm))))
       \<and> go_loop T E p L pm [] = Some (L, pm)"
proof (intro conjI impI)
  show "\<exists>ms. go_loop T E p L pm (''searchmoves'' # rest)
                = Some (L\<lparr>searchmoves := searchmoves L @ ms\<rparr>, pm)
              \<and> map Some ms = map (to_move T E p) rest"
    by (rule go_loop_searchmoves [OF assms])
next
  assume a: "numeral_value n = Some v \<and> - (2 ^ 63) \<le> v \<and> v \<le> 2 ^ 63 - 1"
  then have n: "numeral_value n = Some v" and lo: "- (2 ^ 63) \<le> v" and hi: "v \<le> 2 ^ 63 - 1"
    by simp_all
  show "go_loop T E p L pm (''wtime'' # n # rest) = go_loop T E p (L\<lparr>time_WHITE := v\<rparr>) pm rest"
    by (rule go_loop_int64 [OF n lo hi])
  show "go_loop T E p L pm (''btime'' # n # rest) = go_loop T E p (L\<lparr>time_BLACK := v\<rparr>) pm rest"
    by (rule go_loop_int64 [OF n lo hi])
  show "go_loop T E p L pm (''winc'' # n # rest) = go_loop T E p (L\<lparr>inc_WHITE := v\<rparr>) pm rest"
    by (rule go_loop_int64 [OF n lo hi])
  show "go_loop T E p L pm (''binc'' # n # rest) = go_loop T E p (L\<lparr>inc_BLACK := v\<rparr>) pm rest"
    by (rule go_loop_int64 [OF n lo hi])
  show "go_loop T E p L pm (''nodes'' # n # rest) = go_loop T E p (L\<lparr>nodes := v\<rparr>) pm rest"
    by (rule go_loop_int64 [OF n lo hi])
  show "go_loop T E p L pm (''movetime'' # n # rest) = go_loop T E p (L\<lparr>movetime := v\<rparr>) pm rest"
    by (rule go_loop_int64 [OF n lo hi])
next
  assume a: "numeral_value n = Some v \<and> - (2 ^ 31) \<le> v \<and> v \<le> 2 ^ 31 - 1"
  then have n: "numeral_value n = Some v" and lo: "- (2 ^ 31) \<le> v" and hi: "v \<le> 2 ^ 31 - 1"
    by simp_all
  show "go_loop T E p L pm (''movestogo'' # n # rest) = go_loop T E p (L\<lparr>movestogo := v\<rparr>) pm rest"
    by (rule go_loop_int [OF n lo hi])
  show "go_loop T E p L pm (''depth'' # n # rest) = go_loop T E p (L\<lparr>depth := v\<rparr>) pm rest"
    by (rule go_loop_int [OF n lo hi])
  show "go_loop T E p L pm (''mate'' # n # rest) = go_loop T E p (L\<lparr>mate := v\<rparr>) pm rest"
    by (rule go_loop_int [OF n lo hi])
  show "go_loop T E p L pm (''perft'' # n # rest) = go_loop T E p (L\<lparr>perft := v\<rparr>) pm rest"
    by (rule go_loop_int [OF n lo hi])
next
  show "go_loop T E p L pm (''infinite'' # rest) = go_loop T E p (L\<lparr>infinite_flag := 1\<rparr>) pm rest"
    by (rule go_loop_flags)
  show "go_loop T E p L pm (''ponder'' # rest) = go_loop T E p L True rest"
    by (rule go_loop_flags)
next
  assume "t \<notin> set go_keywords"
  then show "go_loop T E p L pm (t # rest) = go_loop T E p L pm rest"
    by (rule go_loop_unrecognized)
next
  assume "kw \<in> set (int64_keywords @ int_keywords) \<and> numeral_value n = Some v"
  then have k: "kw \<in> set (int64_keywords @ int_keywords)" and n: "numeral_value n = Some v"
    by simp_all
  show "\<exists>L'. searchmoves L' = searchmoves L
          \<and> (go_loop T E p L pm (kw # n # rest) = go_loop T E p L' pm rest
             \<or> go_loop T E p L pm (kw # n # rest) = Some (L', pm))"
    by (rule go_loop_numeric_consumes [OF k n])
next
  show "go_loop T E p L pm [] = Some (L, pm)"
    by simp
qed

lemma sample_to_move_start:
  "to_move sample_types sample_engine (StartFEN, False, []) ''e3e4'' = Some (20, 28, 0)"
  "to_move sample_types sample_engine (StartFEN, False, []) ''a3a4'' = Some (16, 24, 0)"
  "to_move sample_types sample_engine (StartFEN, False, []) ''zz'' = Some (0, 0, 0)"
  "to_move sample_types sample_engine (StartFEN, False, []) ''depth'' = Some (0, 0, 0)"
  "to_move sample_types sample_engine (StartFEN, False, []) ''5'' = Some (0, 0, 0)"
  "to_move sample_types sample_engine (StartFEN, False, []) ''infinite'' = Some (0, 0, 0)"
  by (simp_all add: to_move_def lower5_def tolower_def sample_engine_def sample_legal_def white_pushes_def
      move_def square_def sample_types_def char_of_def)

lemma numeral_value_samples:
  "numeral_value ''5'' = Some 5" "numeral_value ''3'' = Some 3" "numeral_value ''1000'' = Some 1000"
  by (simp_all add: numeral_value_def is_digit_def digits_val_def)

theorem go_loop_vocabulary_witness:
  "encodable sample_types sample_engine
   \<and> go_loop sample_types sample_engine (StartFEN, False, []) LimitsType_init False
        [''searchmoves'', ''e3e4'', ''depth'', ''5'', ''infinite'']
       = Some (LimitsType_init\<lparr>searchmoves := [(20, 28, 0), (0, 0, 0), (0, 0, 0), (0, 0, 0)]\<rparr>, False)
   \<and> go_loop sample_types sample_engine (StartFEN, False, []) LimitsType_init False
        [''depth'', ''5'', ''foo'', ''wtime'', ''1000'', ''infinite'', ''ponder'']
       = Some (LimitsType_init\<lparr>depth := 5, time_WHITE := 1000, infinite_flag := 1\<rparr>, True)"
proof -
  have e: "encodable sample_types sample_engine"
    by (rule sample_encodable)
  note voc = go_loop_vocabulary [OF e]
  let ?p = "(StartFEN, False, []) :: sample_pos"
  from voc [where p = ?p and L = LimitsType_init and pm = False
        and rest = "[''e3e4'', ''depth'', ''5'', ''infinite'']", THEN conjunct1]
  obtain ms where g: "go_loop sample_types sample_engine ?p LimitsType_init False
        [''searchmoves'', ''e3e4'', ''depth'', ''5'', ''infinite'']
       = Some (LimitsType_init\<lparr>searchmoves := searchmoves LimitsType_init @ ms\<rparr>, False)"
    and m: "map Some ms = map (to_move sample_types sample_engine ?p) [''e3e4'', ''depth'', ''5'', ''infinite'']"
    by blast
  from m have "map Some ms = map Some [(20, 28, 0), (0, 0, 0), (0, 0, 0), (0, 0, 0)]"
    by (simp add: sample_to_move_start)
  then have "ms = [(20, 28, 0), (0, 0, 0), (0, 0, 0), (0, 0, 0)]"
    by (simp only: inj_map_eq_map [OF inj_Some])
  with g have a: "go_loop sample_types sample_engine ?p LimitsType_init False
        [''searchmoves'', ''e3e4'', ''depth'', ''5'', ''infinite'']
       = Some (LimitsType_init\<lparr>searchmoves := [(20, 28, 0), (0, 0, 0), (0, 0, 0), (0, 0, 0)]\<rparr>, False)"
    by (simp add: LimitsType_init_def)
  have foo: "''foo'' \<notin> set go_keywords"
    by (simp add: go_keywords_def int64_keywords_def int_keywords_def)
  have s1: "go_loop sample_types sample_engine ?p LimitsType_init False
              [''depth'', ''5'', ''foo'', ''wtime'', ''1000'', ''infinite'', ''ponder'']
        = go_loop sample_types sample_engine ?p (LimitsType_init\<lparr>depth := 5\<rparr>) False
              [''foo'', ''wtime'', ''1000'', ''infinite'', ''ponder'']"
    using voc [where n = "''5''" and v = 5 and p = ?p and L = LimitsType_init and pm = False
        and rest = "[''foo'', ''wtime'', ''1000'', ''infinite'', ''ponder'']",
        THEN conjunct2, THEN conjunct2, THEN conjunct1]
    by (simp add: numeral_value_samples)
  have s2: "go_loop sample_types sample_engine ?p (LimitsType_init\<lparr>depth := 5\<rparr>) False
              [''foo'', ''wtime'', ''1000'', ''infinite'', ''ponder'']
        = go_loop sample_types sample_engine ?p (LimitsType_init\<lparr>depth := 5\<rparr>) False
              [''wtime'', ''1000'', ''infinite'', ''ponder'']"
    using voc [where p = ?p and L = "LimitsType_init\<lparr>depth := 5\<rparr>" and pm = False
        and rest = "[''wtime'', ''1000'', ''infinite'', ''ponder'']" and t = "''foo''",
        THEN conjunct2, THEN conjunct2, THEN conjunct2, THEN conjunct2, THEN conjunct2, THEN conjunct1] foo
    by (rule mp)
  have s3: "go_loop sample_types sample_engine ?p (LimitsType_init\<lparr>depth := 5\<rparr>) False
              [''wtime'', ''1000'', ''infinite'', ''ponder'']
        = go_loop sample_types sample_engine ?p (LimitsType_init\<lparr>depth := 5, time_WHITE := 1000\<rparr>) False
              [''infinite'', ''ponder'']"
    using voc [where n = "''1000''" and v = 1000 and p = ?p and L = "LimitsType_init\<lparr>depth := 5\<rparr>"
        and pm = False and rest = "[''infinite'', ''ponder'']", THEN conjunct2, THEN conjunct1]
    by (simp add: numeral_value_samples)
  have s4: "go_loop sample_types sample_engine ?p (LimitsType_init\<lparr>depth := 5, time_WHITE := 1000\<rparr>) False
              [''infinite'', ''ponder'']
        = go_loop sample_types sample_engine ?p
            (LimitsType_init\<lparr>depth := 5, time_WHITE := 1000, infinite_flag := 1\<rparr>) False [''ponder'']"
    by (rule voc [THEN conjunct2, THEN conjunct2, THEN conjunct2, THEN conjunct1])
  have s5: "go_loop sample_types sample_engine ?p
            (LimitsType_init\<lparr>depth := 5, time_WHITE := 1000, infinite_flag := 1\<rparr>) False [''ponder'']
        = go_loop sample_types sample_engine ?p
            (LimitsType_init\<lparr>depth := 5, time_WHITE := 1000, infinite_flag := 1\<rparr>) True []"
    by (rule voc [THEN conjunct2, THEN conjunct2, THEN conjunct2, THEN conjunct2, THEN conjunct1])
  have s6: "go_loop sample_types sample_engine ?p
            (LimitsType_init\<lparr>depth := 5, time_WHITE := 1000, infinite_flag := 1\<rparr>) True []
        = Some (LimitsType_init\<lparr>depth := 5, time_WHITE := 1000, infinite_flag := 1\<rparr>, True)"
    by (rule voc [THEN conjunct2, THEN conjunct2, THEN conjunct2, THEN conjunct2, THEN conjunct2, THEN conjunct2,
          THEN conjunct2])
  have b: "go_loop sample_types sample_engine ?p LimitsType_init False
              [''depth'', ''5'', ''foo'', ''wtime'', ''1000'', ''infinite'', ''ponder'']
        = Some (LimitsType_init\<lparr>depth := 5, time_WHITE := 1000, infinite_flag := 1\<rparr>, True)"
    by (simp only: s1 s2 s3 s4 s5 s6)
  show ?thesis by (intro conjI e a b)
qed


section \<open>The go command: one root move per word after searchmoves\<close>

declare go_loop.simps(2) [simp del]

lemma go_loop_step_int64:
  assumes "t \<in> set int64_keywords" and "fits (- (2 ^ 63)) (2 ^ 63 - 1) n"
  shows "\<exists>L'. searchmoves L' = searchmoves L
           \<and> (\<forall>rest. go_loop T E p L pm (t # n # rest) = go_loop T E p L' pm rest)"
proof -
  from assms(2) obtain v where v: "numeral_value n = Some v" "- (2 ^ 63) \<le> v" "v \<le> 2 ^ 63 - 1"
    by (auto simp add: fits_def split: option.splits)
  note st = go_loop_int64 [OF v, of T E p L pm]
  from assms(1) have "t = ''wtime'' \<or> t = ''btime'' \<or> t = ''winc'' \<or> t = ''binc''
      \<or> t = ''nodes'' \<or> t = ''movetime''"
    by (simp add: int64_keywords_def)
  then show ?thesis
  proof (elim disjE)
    assume "t = ''wtime''"
    with st(1) have "searchmoves (L\<lparr>time_WHITE := v\<rparr>) = searchmoves L
        \<and> (\<forall>rest. go_loop T E p L pm (t # n # rest) = go_loop T E p (L\<lparr>time_WHITE := v\<rparr>) pm rest)"
      by simp
    then show ?thesis by blast
  next
    assume "t = ''btime''"
    with st(2) have "searchmoves (L\<lparr>time_BLACK := v\<rparr>) = searchmoves L
        \<and> (\<forall>rest. go_loop T E p L pm (t # n # rest) = go_loop T E p (L\<lparr>time_BLACK := v\<rparr>) pm rest)"
      by simp
    then show ?thesis by blast
  next
    assume "t = ''winc''"
    with st(3) have "searchmoves (L\<lparr>inc_WHITE := v\<rparr>) = searchmoves L
        \<and> (\<forall>rest. go_loop T E p L pm (t # n # rest) = go_loop T E p (L\<lparr>inc_WHITE := v\<rparr>) pm rest)"
      by simp
    then show ?thesis by blast
  next
    assume "t = ''binc''"
    with st(4) have "searchmoves (L\<lparr>inc_BLACK := v\<rparr>) = searchmoves L
        \<and> (\<forall>rest. go_loop T E p L pm (t # n # rest) = go_loop T E p (L\<lparr>inc_BLACK := v\<rparr>) pm rest)"
      by simp
    then show ?thesis by blast
  next
    assume "t = ''nodes''"
    with st(5) have "searchmoves (L\<lparr>nodes := v\<rparr>) = searchmoves L
        \<and> (\<forall>rest. go_loop T E p L pm (t # n # rest) = go_loop T E p (L\<lparr>nodes := v\<rparr>) pm rest)"
      by simp
    then show ?thesis by blast
  next
    assume "t = ''movetime''"
    with st(6) have "searchmoves (L\<lparr>movetime := v\<rparr>) = searchmoves L
        \<and> (\<forall>rest. go_loop T E p L pm (t # n # rest) = go_loop T E p (L\<lparr>movetime := v\<rparr>) pm rest)"
      by simp
    then show ?thesis by blast
  qed
qed

lemma go_loop_step_int:
  assumes "t \<in> set int_keywords" and "fits (- (2 ^ 31)) (2 ^ 31 - 1) n"
  shows "\<exists>L'. searchmoves L' = searchmoves L
           \<and> (\<forall>rest. go_loop T E p L pm (t # n # rest) = go_loop T E p L' pm rest)"
proof -
  from assms(2) obtain v where v: "numeral_value n = Some v" "- (2 ^ 31) \<le> v" "v \<le> 2 ^ 31 - 1"
    by (auto simp add: fits_def split: option.splits)
  note st = go_loop_int [OF v, of T E p L pm]
  from assms(1) have "t = ''movestogo'' \<or> t = ''depth'' \<or> t = ''mate'' \<or> t = ''perft''"
    by (simp add: int_keywords_def)
  then show ?thesis
  proof (elim disjE)
    assume "t = ''movestogo''"
    with st(1) have "searchmoves (L\<lparr>movestogo := v\<rparr>) = searchmoves L
        \<and> (\<forall>rest. go_loop T E p L pm (t # n # rest) = go_loop T E p (L\<lparr>movestogo := v\<rparr>) pm rest)"
      by simp
    then show ?thesis by blast
  next
    assume "t = ''depth''"
    with st(2) have "searchmoves (L\<lparr>depth := v\<rparr>) = searchmoves L
        \<and> (\<forall>rest. go_loop T E p L pm (t # n # rest) = go_loop T E p (L\<lparr>depth := v\<rparr>) pm rest)"
      by simp
    then show ?thesis by blast
  next
    assume "t = ''mate''"
    with st(3) have "searchmoves (L\<lparr>mate := v\<rparr>) = searchmoves L
        \<and> (\<forall>rest. go_loop T E p L pm (t # n # rest) = go_loop T E p (L\<lparr>mate := v\<rparr>) pm rest)"
      by simp
    then show ?thesis by blast
  next
    assume "t = ''perft''"
    with st(4) have "searchmoves (L\<lparr>perft := v\<rparr>) = searchmoves L
        \<and> (\<forall>rest. go_loop T E p L pm (t # n # rest) = go_loop T E p (L\<lparr>perft := v\<rparr>) pm rest)"
      by simp
    then show ?thesis by blast
  qed
qed

lemma go_loop_step_other:
  assumes "t \<notin> set (''searchmoves'' # int64_keywords @ int_keywords)"
  shows "\<exists>L' pm'. searchmoves L' = searchmoves L
           \<and> (\<forall>rest. go_loop T E p L pm (t # rest) = go_loop T E p L' pm' rest)"
proof (cases "t = ''infinite''")
  case True
  then have "searchmoves (L\<lparr>infinite_flag := 1\<rparr>) = searchmoves L
      \<and> (\<forall>rest. go_loop T E p L pm (t # rest) = go_loop T E p (L\<lparr>infinite_flag := 1\<rparr>) pm rest)"
    by (simp add: go_loop_flags)
  then show ?thesis by blast
next
  case False
  note not_infinite = False
  show ?thesis
  proof (cases "t = ''ponder''")
    case True
    then have "searchmoves L = searchmoves L
        \<and> (\<forall>rest. go_loop T E p L pm (t # rest) = go_loop T E p L True rest)"
      by (simp add: go_loop_flags)
    then show ?thesis by blast
  next
    case False
    with not_infinite assms have "t \<notin> set go_keywords"
      by (simp add: go_keywords_def)
    then have "searchmoves L = searchmoves L
        \<and> (\<forall>rest. go_loop T E p L pm (t # rest) = go_loop T E p L pm rest)"
      by (intro conjI allI refl go_loop_unrecognized)
    then show ?thesis by blast
  qed
qed

lemma go_loop_clauses:
  assumes "go_clauses pre"
  shows "\<exists>L' pm'. searchmoves L' = searchmoves L
           \<and> (\<forall>rest. go_loop T E p L pm (pre @ rest) = go_loop T E p L' pm' rest)"
  using assms
proof (induction pre arbitrary: L pm rule: go_clauses.induct)
  case 1
  have "searchmoves L = searchmoves L \<and> (\<forall>rest. go_loop T E p L pm ([] @ rest) = go_loop T E p L pm rest)"
    by simp
  then show ?case by blast
next
  case (2 t)
  then have "t \<notin> set (''searchmoves'' # int64_keywords @ int_keywords)"
    by simp
  from go_loop_step_other [OF this, of L T E p pm] show ?case
    by simp
next
  case (3 t n ts)
  show ?case
  proof (cases "t \<in> set int64_keywords")
    case True
    with "3.prems" have ne: "t \<noteq> ''searchmoves''" and f: "fits (- (2 ^ 63)) (2 ^ 63 - 1) n"
      and c: "go_clauses ts"
      by (auto split: if_splits)
    from go_loop_step_int64 [OF True f, of L T E p pm] obtain L1 where
      L1: "searchmoves L1 = searchmoves L"
        "\<And>rest. go_loop T E p L pm (t # n # rest) = go_loop T E p L1 pm rest"
      by blast
    from "3.IH"(1) [OF ne True c, of L1 pm] obtain L2 pm2 where
      L2: "searchmoves L2 = searchmoves L1"
        "\<And>rest. go_loop T E p L1 pm (ts @ rest) = go_loop T E p L2 pm2 rest"
      by blast
    from L1 L2 have "searchmoves L2 = searchmoves L
        \<and> (\<forall>rest. go_loop T E p L pm ((t # n # ts) @ rest) = go_loop T E p L2 pm2 rest)"
      by simp
    then show ?thesis by blast
  next
    case False
    note not64 = False
    show ?thesis
    proof (cases "t \<in> set int_keywords")
      case True
      with "3.prems" not64 have ne: "t \<noteq> ''searchmoves''" and f: "fits (- (2 ^ 31)) (2 ^ 31 - 1) n"
        and c: "go_clauses ts"
        by (auto split: if_splits)
      from go_loop_step_int [OF True f, of L T E p pm] obtain L1 where
        L1: "searchmoves L1 = searchmoves L"
          "\<And>rest. go_loop T E p L pm (t # n # rest) = go_loop T E p L1 pm rest"
        by blast
      from "3.IH"(2) [OF ne not64 True c, of L1 pm] obtain L2 pm2 where
        L2: "searchmoves L2 = searchmoves L1"
          "\<And>rest. go_loop T E p L1 pm (ts @ rest) = go_loop T E p L2 pm2 rest"
        by blast
      from L1 L2 have "searchmoves L2 = searchmoves L
          \<and> (\<forall>rest. go_loop T E p L pm ((t # n # ts) @ rest) = go_loop T E p L2 pm2 rest)"
        by simp
      then show ?thesis by blast
    next
      case False
      with "3.prems" not64 have ne: "t \<noteq> ''searchmoves''" and c: "go_clauses (n # ts)"
        by (auto split: if_splits)
      from ne not64 False have "t \<notin> set (''searchmoves'' # int64_keywords @ int_keywords)"
        by simp
      from go_loop_step_other [OF this, of L T E p pm] obtain L1 pm1 where
        L1: "searchmoves L1 = searchmoves L"
          "\<And>rest. go_loop T E p L pm (t # rest) = go_loop T E p L1 pm1 rest"
        by blast
      from "3.IH"(3) [OF ne not64 False c, of L1 pm1] obtain L2 pm2 where
        L2: "searchmoves L2 = searchmoves L1"
          "\<And>rest. go_loop T E p L1 pm1 ((n # ts) @ rest) = go_loop T E p L2 pm2 rest"
        by blast
      from L1 L2 have "searchmoves L2 = searchmoves L
          \<and> (\<forall>rest. go_loop T E p L pm ((t # n # ts) @ rest) = go_loop T E p L2 pm2 rest)"
        by simp
      then show ?thesis by blast
    qed
  qed
qed

text \<open>
  C9, as the code has it. Let every legal move have a text, and let the words before
  \<^verbatim>\<open>searchmoves\<close> be clauses of the grammar: keywords with a numeric word in range
  behind each numeric one. Then the \<^verbatim>\<open>go\<close> command starts a search whose list of root
  moves has exactly one entry per word after \<^verbatim>\<open>searchmoves\<close>: entry number \<open>i\<close> is what
  \<^verbatim>\<open>to_move\<close> gives for word number \<open>i\<close> in the current position, and it is \<^verbatim>\<open>MOVE_NONE\<close>
  when the word, its fifth character in lower case, is the text of no legal move.
\<close>

theorem go_searchmoves_entry_per_word:
  assumes "encodable T E" and "go_clauses pre"
  shows "\<exists>limits pm.
           go T E w (pre @ ''searchmoves'' # rest)
             = Some (emit (Start_thinking (cur_pos w) limits pm)
                       ((tick w)\<lparr>n_searches := Suc (n_searches w)\<rparr>))
         \<and> length (searchmoves limits) = length rest
         \<and> map Some (searchmoves limits) = map (to_move T E (cur_pos w)) rest
         \<and> (\<forall>i < length rest.
               Some (lower5 (rest ! i)) \<notin> set (map (move T) (legal_moves E (cur_pos w)))
               \<longrightarrow> searchmoves limits ! i = MOVE_NONE T)"
proof -
  let ?L0 = "LimitsType_init\<lparr>startTime := sint (now E (clock_ticks w))\<rparr> :: 'a LimitsType"
  from go_loop_clauses [OF assms(2), of ?L0 T E "cur_pos w" False] obtain L1 pm1 where
    L1: "searchmoves L1 = searchmoves ?L0"
      "\<And>rest. go_loop T E (cur_pos w) ?L0 False (pre @ rest) = go_loop T E (cur_pos w) L1 pm1 rest"
    by blast
  from go_loop_searchmoves [OF assms(1), of "cur_pos w" L1 pm1 rest] obtain ms where
    ms: "go_loop T E (cur_pos w) L1 pm1 (''searchmoves'' # rest)
           = Some (L1\<lparr>searchmoves := searchmoves L1 @ ms\<rparr>, pm1)"
      "map Some ms = map (to_move T E (cur_pos w)) rest"
    by blast
  let ?L = "L1\<lparr>searchmoves := searchmoves L1 @ ms\<rparr>"
  from L1(1) have sm: "searchmoves ?L = ms"
    by (simp add: LimitsType_init_def)
  from ms(2) have len: "length ms = length rest"
    by (metis length_map)
  have none: "\<forall>i < length rest.
               Some (lower5 (rest ! i)) \<notin> set (map (move T) (legal_moves E (cur_pos w)))
               \<longrightarrow> ms ! i = MOVE_NONE T"
  proof (intro allI impI)
    fix i
    assume i: "i < length rest"
      and a: "Some (lower5 (rest ! i)) \<notin> set (map (move T) (legal_moves E (cur_pos w)))"
    from assms(1) have "None \<notin> set (map (move T) (legal_moves E (cur_pos w)))"
      by (simp add: encodable_def)
    from find_move_absent [OF this a] have "to_move T E (cur_pos w) (rest ! i) = Some (MOVE_NONE T)"
      by (simp add: to_move_def)
    moreover from ms(2) i len have "Some (ms ! i) = to_move T E (cur_pos w) (rest ! i)"
      by (metis nth_map)
    ultimately show "ms ! i = MOVE_NONE T" by simp
  qed
  from L1(2) [of "''searchmoves'' # rest"] ms(1)
  have "go T E w (pre @ ''searchmoves'' # rest)
             = Some (emit (Start_thinking (cur_pos w) ?L pm1)
                       ((tick w)\<lparr>n_searches := Suc (n_searches w)\<rparr>))"
    by (simp add: go_def)
  with sm len ms(2) none show ?thesis
    by (intro exI [of _ ?L] exI [of _ pm1]) simp
qed

theorem go_searchmoves_entry_per_word_witness:
  "encodable sample_types sample_engine
   \<and> go_clauses [''depth'', ''3'']
   \<and> (\<exists>limits pm.
         go sample_types sample_engine sample_session
            [''depth'', ''3'', ''searchmoves'', ''e3e4'', ''zz'', ''a3a4'']
           = Some (emit (Start_thinking (StartFEN, False, []) limits pm)
                     ((tick sample_session)\<lparr>n_searches := 1\<rparr>))
         \<and> searchmoves limits = [(20, 28, 0), (0, 0, 0), (16, 24, 0)])"
proof -
  have e: "encodable sample_types sample_engine"
    by (rule sample_encodable)
  have c: "go_clauses [''depth'', ''3'']"
    by (simp add: int64_keywords_def int_keywords_def fits_def numeral_value_samples)
  have p: "cur_pos sample_session = (StartFEN, False, [])"
    and n: "n_searches sample_session = 0"
    by (simp_all add: sample_session_def)
  from go_searchmoves_entry_per_word [OF e c, of sample_session "[''e3e4'', ''zz'', ''a3a4'']"]
  obtain limits pm where
    g: "go sample_types sample_engine sample_session
            ([''depth'', ''3''] @ ''searchmoves'' # [''e3e4'', ''zz'', ''a3a4''])
           = Some (emit (Start_thinking (cur_pos sample_session) limits pm)
                     ((tick sample_session)\<lparr>n_searches := Suc (n_searches sample_session)\<rparr>))"
    and m: "map Some (searchmoves limits)
             = map (to_move sample_types sample_engine (cur_pos sample_session)) [''e3e4'', ''zz'', ''a3a4'']"
    by blast
  from m have "map Some (searchmoves limits) = map Some [(20, 28, 0), (0, 0, 0), (16, 24, 0)]"
    by (simp add: p sample_to_move_start)
  then have s: "searchmoves limits = [(20, 28, 0), (0, 0, 0), (16, 24, 0)]"
    by (simp only: inj_map_eq_map [OF inj_Some])
  from g have "go sample_types sample_engine sample_session
            [''depth'', ''3'', ''searchmoves'', ''e3e4'', ''zz'', ''a3a4'']
           = Some (emit (Start_thinking (StartFEN, False, []) limits pm)
                     ((tick sample_session)\<lparr>n_searches := 1\<rparr>))"
    by (simp add: p n)
  with s have "\<exists>limits pm.
         go sample_types sample_engine sample_session
            [''depth'', ''3'', ''searchmoves'', ''e3e4'', ''zz'', ''a3a4'']
           = Some (emit (Start_thinking (StartFEN, False, []) limits pm)
                     ((tick sample_session)\<lparr>n_searches := 1\<rparr>))
         \<and> searchmoves limits = [(20, 28, 0), (0, 0, 0), (16, 24, 0)]"
    by blast
  with e c show ?thesis by blast
qed

text \<open>
  C9, where it fails. In \<^verbatim>\<open>go depth searchmoves e3e4\<close> the word \<^verbatim>\<open>searchmoves\<close> is what
  \<^verbatim>\<open>depth\<close> tries to read as its number. The extraction fails, the stream is in its
  failed state and the loop ends: the command holds \<^verbatim>\<open>searchmoves\<close> and one word follows
  it, yet the search starts with an empty list of root moves.
\<close>

theorem go_searchmoves_swallowed_counterexample:
  "go sample_types sample_engine sample_session [''depth'', ''searchmoves'', ''e3e4'']
     = Some (emit (Start_thinking (StartFEN, False, []) (LimitsType_init\<lparr>startTime := 1000\<rparr>) False)
              ((tick sample_session)\<lparr>n_searches := 1\<rparr>))
   \<and> searchmoves (LimitsType_init\<lparr>startTime := 1000\<rparr> :: sample_move LimitsType) = []
   \<and> length (searchmoves (LimitsType_init\<lparr>startTime := 1000\<rparr> :: sample_move LimitsType))
       \<noteq> length [''e3e4'']"
proof -
  have n: "get_int [''searchmoves'', ''e3e4''] 0 = (0, [])"
    by (simp add: get_int_def get_num_def is_digit_def)
  have d: "depth (LimitsType_init :: sample_move LimitsType) = 0"
    by (simp add: LimitsType_init_def)
  have l: "go_loop sample_types sample_engine (StartFEN, False, [])
             (LimitsType_init\<lparr>startTime := 1000\<rparr>) False [''depth'', ''searchmoves'', ''e3e4'']
           = Some (LimitsType_init\<lparr>startTime := 1000\<rparr>, False)"
    by (simp add: go_loop.simps(2) n d LimitsType_init_def)
  have c: "sint (now sample_engine (clock_ticks sample_session)) = 1000"
    by (simp add: sample_engine_def sample_session_def)
  have p: "cur_pos sample_session = (StartFEN, False, [])" and s: "n_searches sample_session = 0"
    by (simp_all add: sample_session_def)
  have a: "go sample_types sample_engine sample_session [''depth'', ''searchmoves'', ''e3e4'']
     = Some (emit (Start_thinking (StartFEN, False, []) (LimitsType_init\<lparr>startTime := 1000\<rparr>) False)
              ((tick sample_session)\<lparr>n_searches := 1\<rparr>))"
    by (simp add: go_def c p s l)
  have b: "searchmoves (LimitsType_init\<lparr>startTime := 1000\<rparr> :: sample_move LimitsType) = []"
    by (simp add: LimitsType_init_def)
  from a b show ?thesis by simp
qed


section \<open>The command loop: empty and blank lines\<close>

lemma split_ws_blank: "list_all isspace cs \<Longrightarrow> split_ws [] cs = []"
  by (induction cs) simp_all

lemma tokens_blank: "list_all isspace line \<Longrightarrow> tokens line = []"
  by (simp add: tokens_def split_ws_blank)

lemma dispatch_no_token:
  assumes "tokens line = []"
  shows "dispatch T E w line = Some (emit (Cout (''Unknown command: '' @ line)) w)"
  using assms by (simp add: dispatch_def first_token_def)

text \<open>
  C5, as the code has it. For a line that is empty or holds white space only the token
  is the empty string; it is none of the commands, so the last branch of the chain
  writes \<^verbatim>\<open>Unknown command: \<close> followed by the line. The session changes in nothing but
  this output, and the loop goes on with the next line.
\<close>

theorem dispatch_blank_line:
  assumes "list_all isspace line"
  shows "first_token line = []
       \<and> dispatch T E w line = Some (emit (Cout (''Unknown command: '' @ line)) w)
       \<and> emit (Cout (''Unknown command: '' @ line)) w
           = w\<lparr>trace := trace w @ [Cout (''Unknown command: '' @ line)]\<rparr>
       \<and> loop_lines T E w (line # lines)
           = loop_lines T E (emit (Cout (''Unknown command: '' @ line)) w) lines"
proof -
  from assms have t: "tokens line = []"
    by (rule tokens_blank)
  then have f: "first_token line = []"
    by (simp add: first_token_def)
  from t have d: "dispatch T E w line = Some (emit (Cout (''Unknown command: '' @ line)) w)"
    by (rule dispatch_no_token)
  from f d have l: "loop_lines T E w (line # lines)
           = loop_lines T E (emit (Cout (''Unknown command: '' @ line)) w) lines"
    by simp
  from f d l show ?thesis
    by (simp add: emit_def)
qed

theorem dispatch_blank_line_witness:
  "list_all isspace ''  ''
   \<and> dispatch sample_types sample_engine sample_session ''  ''
       = Some (sample_session\<lparr>trace := [Cout ''Unknown command:   '']\<rparr>)
   \<and> loop_lines sample_types sample_engine sample_session [''  '', ''isready'', ''quit'']
       = Some (sample_session\<lparr>trace := [Cout ''Unknown command:   '', Cout ''readyok'', Threads_stop_true]\<rparr>)"
proof -
  have b: "list_all isspace ''  ''"
    by (simp add: isspace_def)
  note inst = dispatch_blank_line [OF b, of sample_types sample_engine sample_session]
  have tr: "trace sample_session = []"
    by (simp add: sample_session_def)
  have e: "emit (Cout (''Unknown command: '' @ ''  '')) sample_session
            = sample_session\<lparr>trace := [Cout ''Unknown command:   '']\<rparr>"
    by (simp add: emit_def tr)
  from inst e have d: "dispatch sample_types sample_engine sample_session ''  ''
       = Some (sample_session\<lparr>trace := [Cout ''Unknown command:   '']\<rparr>)"
    by simp
  have t1: "tokens ''isready'' = [''isready'']" and t2: "tokens ''quit'' = [''quit'']"
    by (simp_all add: tokens_def isspace_def)
  have "loop_lines sample_types sample_engine (sample_session\<lparr>trace := [Cout ''Unknown command:   '']\<rparr>)
          [''isready'', ''quit'']
       = Some (sample_session\<lparr>trace := [Cout ''Unknown command:   '', Cout ''readyok'', Threads_stop_true]\<rparr>)"
    by (simp add: dispatch_def first_token_def t1 t2 emit_def)
  with inst [of "[''isready'', ''quit'']"] e
  have l: "loop_lines sample_types sample_engine sample_session [''  '', ''isready'', ''quit'']
       = Some (sample_session\<lparr>trace := [Cout ''Unknown command:   '', Cout ''readyok'', Threads_stop_true]\<rparr>)"
    by simp
  show ?thesis by (intro conjI b d l)
qed

text \<open>
  The claim as stated asks that an empty line produce no output. The empty line
  produces the line \<^verbatim>\<open>Unknown command: \<close>.
\<close>

theorem dispatch_empty_line_counterexample:
  "list_all isspace []
   \<and> dispatch sample_types sample_engine sample_session []
       = Some (sample_session\<lparr>trace := [Cout ''Unknown command: '']\<rparr>)
   \<and> trace sample_session = []"
  by (simp add: dispatch_def first_token_def tokens_def emit_def sample_session_def)

section \<open>The bench command: elapsed time and node count\<close>

lemma go_loop_defined:
  "encodable T E \<Longrightarrow> \<exists>r. go_loop T E p L pm toks = Some r"
proof (induction T E p L pm toks rule: go_loop.induct)
  case (1 T E p limits ponderMode)
  show ?case by simp
next
  case (2 T E p limits ponderMode token rest)
  note enc = "2.prems"
  show ?case
  proof (cases "token = ''searchmoves''")
    case True
    from go_loop_searchmoves [OF enc, of p limits ponderMode rest] True show ?thesis
      by auto
  next
    case False
    with "2.IH" enc show ?thesis
      unfolding go_loop.simps(2) [of T E p limits ponderMode token rest]
      by (simp split: if_split)
  qed
qed

lemma go_counts:
  assumes "encodable T E"
  shows "\<exists>w'. go T E w toks = Some w' \<and> clock_ticks w' = Suc (clock_ticks w)
              \<and> n_searches w' = Suc (n_searches w)"
proof -
  from go_loop_defined [OF assms] obtain limits pm where
    "go_loop T E (cur_pos w) (LimitsType_init\<lparr>startTime := sint (now E (clock_ticks w))\<rparr>) False toks
       = Some (limits, pm)"
    by fastforce
  then show ?thesis
    by (simp add: go_def tick_def emit_def)
qed

lemma position_counts:
  assumes "encodable T E"
  shows "\<exists>w'. position T E w toks = Some w' \<and> clock_ticks w' = clock_ticks w
              \<and> n_searches w' = n_searches w"
proof -
  have r: "clock_ticks (replayed T E w fen mv) = clock_ticks w
         \<and> n_searches (replayed T E w fen mv) = n_searches w" for fen mv
    by (simp add: replayed_def Let_def)
  show ?thesis
  proof (cases toks)
    case Nil
    then show ?thesis by (simp add: position_def)
  next
    case (Cons t ts)
    then show ?thesis
      using r by (simp add: position_def set_and_play_replayed [OF assms] split: prod.split)
  qed
qed

lemma setoption_counts:
  "clock_ticks (setoption w toks) = clock_ticks w \<and> n_searches (setoption w toks) = n_searches w"
  by (simp add: setoption_def emit_def Let_def split: prod.split)

lemma bench_cmd_effect:
  assumes "encodable T E" and "tokens c \<noteq> []"
  shows "\<exists>w' b'. bench_cmd T E num (w, b) c = Some (w', b')
     \<and> clock_ticks w' = clock_ticks w
          + (if first_token c = ''go'' \<or> first_token c = ''ucinewgame'' then 1 else 0)
     \<and> n_searches w' = n_searches w + (if first_token c = ''go'' then 1 else 0)
     \<and> b_nodes b' = b_nodes b
          + (if first_token c = ''go'' then nodes_searched E (Suc (n_searches w)) else 0)
     \<and> b_elapsed b' = (if first_token c = ''ucinewgame'' then now E (clock_ticks w) else b_elapsed b)"
proof -
  from assms(2) obtain t r where tr: "tokens c = t # r"
    by (cases "tokens c") auto
  then have ft: "first_token c = t"
    by (simp add: first_token_def)
  show ?thesis
  proof (cases "t = ''go''")
    case True
    let ?w0 = "emit (Cerr ([CHR 0x0A] @ ''Position: '' @ show_int (uint (b_cnt b)) @ ''/''
                               @ show_int (uint num) @ [CHR 0x0A])) w"
    from go_counts [OF assms(1), of ?w0 r] obtain w1 where
      "go T E ?w0 r = Some w1" "clock_ticks w1 = Suc (clock_ticks ?w0)"
      "n_searches w1 = Suc (n_searches ?w0)"
      by blast
    with True tr ft show ?thesis
      by (simp add: bench_cmd_def emit_def)
  next
    case False
    note not_go = False
    show ?thesis
    proof (cases "t = ''setoption''")
      case True
      with tr ft setoption_counts [of w r] show ?thesis
        by (simp add: bench_cmd_def)
    next
      case False
      note not_setoption = False
      show ?thesis
      proof (cases "t = ''position''")
        case True
        from position_counts [OF assms(1), of w r] obtain w1 where
          "position T E w r = Some w1" "clock_ticks w1 = clock_ticks w" "n_searches w1 = n_searches w"
          by blast
        with True tr ft show ?thesis
          by (simp add: bench_cmd_def)
      next
        case False
        with not_go not_setoption tr ft show ?thesis
          by (simp add: bench_cmd_def tick_def emit_def)
      qed
    qed
  qed
qed

lemma bench_loop_append:
  "bench_loop T E num wb (xs @ ys) =
     (case bench_loop T E num wb xs of None \<Rightarrow> None | Some wb' \<Rightarrow> bench_loop T E num wb' ys)"
  by (induction xs arbitrary: wb) (simp_all split: option.split)

lemma total_nodes_Suc:
  "total_nodes E n0 (Suc g) = total_nodes E n0 g + nodes_searched E (n0 + Suc g)"
  by (simp add: total_nodes_def)

lemma bench_loop_run:
  assumes "encodable T E" and "list_all (\<lambda>c. tokens c \<noteq> []) script"
  shows "\<exists>w' b'. bench_loop T E num (w, b) script = Some (w', b')
     \<and> clock_ticks w' = clock_ticks w + clock_reads script
     \<and> n_searches w' = n_searches w + go_lines script
     \<and> b_nodes b' = b_nodes b + total_nodes E (n_searches w) (go_lines script)
     \<and> b_elapsed b' =
          (case dropWhile (\<lambda>c. first_token c \<noteq> ''ucinewgame'') (rev script) of
             [] \<Rightarrow> b_elapsed b
           | u # before \<Rightarrow> now E (clock_ticks w + clock_reads (rev before)))"
  using assms(2)
proof (induction script rule: rev_induct)
  case Nil
  show ?case
    by (simp add: clock_reads_def go_lines_def total_nodes_def)
next
  case (snoc c cs)
  then have cs: "list_all (\<lambda>c. tokens c \<noteq> []) cs" and c: "tokens c \<noteq> []"
    by simp_all
  from snoc.IH [OF cs] obtain w1 b1 where
    run: "bench_loop T E num (w, b) cs = Some (w1, b1)"
    and k1: "clock_ticks w1 = clock_ticks w + clock_reads cs"
    and s1: "n_searches w1 = n_searches w + go_lines cs"
    and n1: "b_nodes b1 = b_nodes b + total_nodes E (n_searches w) (go_lines cs)"
    and e1: "b_elapsed b1 =
          (case dropWhile (\<lambda>c. first_token c \<noteq> ''ucinewgame'') (rev cs) of
             [] \<Rightarrow> b_elapsed b
           | u # before \<Rightarrow> now E (clock_ticks w + clock_reads (rev before)))"
    by blast
  from bench_cmd_effect [OF assms(1) c, of num w1 b1] obtain w2 b2 where
    step: "bench_cmd T E num (w1, b1) c = Some (w2, b2)"
    and k2: "clock_ticks w2 = clock_ticks w1
          + (if first_token c = ''go'' \<or> first_token c = ''ucinewgame'' then 1 else 0)"
    and s2: "n_searches w2 = n_searches w1 + (if first_token c = ''go'' then 1 else 0)"
    and n2: "b_nodes b2 = b_nodes b1
          + (if first_token c = ''go'' then nodes_searched E (Suc (n_searches w1)) else 0)"
    and e2: "b_elapsed b2 = (if first_token c = ''ucinewgame'' then now E (clock_ticks w1) else b_elapsed b1)"
    by blast
  from run step have r: "bench_loop T E num (w, b) (cs @ [c]) = Some (w2, b2)"
    by (simp add: bench_loop_append)
  from k1 k2 have k: "clock_ticks w2 = clock_ticks w + clock_reads (cs @ [c])"
    by (simp add: clock_reads_def)
  from s1 s2 have s: "n_searches w2 = n_searches w + go_lines (cs @ [c])"
    by (simp add: go_lines_def)
  from n1 n2 s1 have n: "b_nodes b2 = b_nodes b + total_nodes E (n_searches w) (go_lines (cs @ [c]))"
    by (simp add: go_lines_def total_nodes_Suc)
  from e1 e2 k1 have e: "b_elapsed b2 =
          (case dropWhile (\<lambda>c. first_token c \<noteq> ''ucinewgame'') (rev (cs @ [c])) of
             [] \<Rightarrow> b_elapsed b
           | u # before \<Rightarrow> now E (clock_ticks w + clock_reads (rev before)))"
    by simp
  from r k s n e show ?case by blast
qed

lemma bench_run_report:
  assumes "encodable T E"
    and "script = setup_bench E (cur_pos w) args"
    and "list_all (\<lambda>c. tokens c \<noteq> []) script"
    and "now E (Suc (clock_ticks w + clock_reads script)) - now E (clock_ticks w + start_read script) + 1 \<noteq> 0"
  shows "\<exists>w'. bench T E w args = Some w'
     \<and> last (trace w') =
         Cerr (bench_report
                (now E (Suc (clock_ticks w + clock_reads script))
                   - now E (clock_ticks w + start_read script) + 1)
                (total_nodes E (n_searches w) (go_lines script)))"
proof -
  let ?b0 = "\<lparr>b_token = [], b_nodes = 0, b_cnt = 1, b_elapsed = now E (clock_ticks w)\<rparr>"
  let ?num = "of_nat (length (filter (\<lambda>s. take 3 s = ''go '') script)) :: 64 word"
  from bench_loop_run [OF assms(1,3), of ?num "tick w" ?b0] obtain w1 b1 where
    run: "bench_loop T E ?num (tick w, ?b0) script = Some (w1, b1)"
    and k: "clock_ticks w1 = clock_ticks (tick w) + clock_reads script"
    and n: "b_nodes b1 = b_nodes ?b0 + total_nodes E (n_searches (tick w)) (go_lines script)"
    and e: "b_elapsed b1 =
          (case dropWhile (\<lambda>c. first_token c \<noteq> ''ucinewgame'') (rev script) of
             [] \<Rightarrow> b_elapsed ?b0
           | u # before \<Rightarrow> now E (clock_ticks (tick w) + clock_reads (rev before)))"
    by blast
  from k have k': "clock_ticks w1 = Suc (clock_ticks w + clock_reads script)"
    by (simp add: tick_def emit_def)
  from n have n': "b_nodes b1 = total_nodes E (n_searches w) (go_lines script)"
    by (simp add: tick_def emit_def)
  have t: "clock_ticks (tick w) = Suc (clock_ticks w)"
    by (simp add: tick_def emit_def)
  have e': "b_elapsed b1 = now E (clock_ticks w + start_read script)"
  proof (cases "dropWhile (\<lambda>c. first_token c \<noteq> ''ucinewgame'') (rev script)")
    case Nil
    from e show ?thesis unfolding start_read_def Nil by simp
  next
    case (Cons u before)
    from e t show ?thesis unfolding start_read_def Cons by simp
  qed
  from run k' n' e' assms(2,4) show ?thesis
    by (simp add: bench_def Let_def emit_def)
qed


text \<open>
  C6, as the code has it. Let every legal move have a text, let every line of the
  script have a word, and let the elapsed time computed at the end be other than zero.
  Then \<^verbatim>\<open>bench\<close> completes, and the summary it writes last reports as elapsed time the
  clock reading after the script minus the start reading plus one, and as node count the
  sum of what \<^verbatim>\<open>Threads.nodes_searched()\<close> returned after each \<^verbatim>\<open>go\<close> line. The start reading
  is the one taken at the entry of \<^verbatim>\<open>bench\<close>, or at the last \<^verbatim>\<open>ucinewgame\<close> line if there is
  one. A \<^verbatim>\<open>ucinewgame\<close> line clears the search first and reads the clock after that, into
  \<^verbatim>\<open>elapsed\<close>; a \<^verbatim>\<open>go\<close> line runs \<^verbatim>\<open>go\<close>, waits for the search to finish and adds the node
  count of that search.
\<close>

theorem bench_reports_elapsed_plus_one:
  assumes "encodable T E"
    and "script = setup_bench E (cur_pos w) args"
    and "list_all (\<lambda>c. tokens c \<noteq> []) script"
    and "now E (Suc (clock_ticks w + clock_reads script)) - now E (clock_ticks w + start_read script) + 1 \<noteq> 0"
  shows "(\<exists>w'. bench T E w args = Some w'
           \<and> last (trace w') =
               Cerr (bench_report
                      (now E (Suc (clock_ticks w + clock_reads script))
                         - now E (clock_ticks w + start_read script) + 1)
                      (total_nodes E (n_searches w) (go_lines script))))
       \<and> (first_token c = ''ucinewgame'' \<longrightarrow>
            bench_cmd T E num (w1, b1) c
              = Some (tick (emit Search_clear w1),
                      b1\<lparr>b_token := ''ucinewgame'', b_elapsed := now E (clock_ticks w1)\<rparr>))
       \<and> (first_token c = ''go'' \<longrightarrow>
            (\<exists>w2. go T E (emit (Cerr ([CHR 0x0A] @ ''Position: '' @ show_int (uint (b_cnt b1)) @ ''/''
                                        @ show_int (uint num) @ [CHR 0x0A])) w1) (drop 1 (tokens c))
                     = Some w2
                 \<and> bench_cmd T E num (w1, b1) c
                     = Some (emit Wait_for_search_finished w2,
                             b1\<lparr>b_token := ''go'', b_cnt := b_cnt b1 + 1,
                                b_nodes := b_nodes b1 + nodes_searched E (Suc (n_searches w1))\<rparr>)))"
proof (intro conjI impI)
  show "\<exists>w'. bench T E w args = Some w'
           \<and> last (trace w') =
               Cerr (bench_report
                      (now E (Suc (clock_ticks w + clock_reads script))
                         - now E (clock_ticks w + start_read script) + 1)
                      (total_nodes E (n_searches w) (go_lines script)))"
    using assms by (rule bench_run_report)
next
  assume "first_token c = ''ucinewgame''"
  then show "bench_cmd T E num (w1, b1) c
              = Some (tick (emit Search_clear w1),
                      b1\<lparr>b_token := ''ucinewgame'', b_elapsed := now E (clock_ticks w1)\<rparr>)"
    by (cases "tokens c") (simp_all add: first_token_def bench_cmd_def emit_def)
next
  assume g: "first_token c = ''go''"
  let ?w0 = "emit (Cerr ([CHR 0x0A] @ ''Position: '' @ show_int (uint (b_cnt b1)) @ ''/''
                                        @ show_int (uint num) @ [CHR 0x0A])) w1"
  from go_counts [OF assms(1), of ?w0 "drop 1 (tokens c)"] obtain w2 where
    w2: "go T E ?w0 (drop 1 (tokens c)) = Some w2" "n_searches w2 = Suc (n_searches ?w0)"
    by blast
  from g w2 have "bench_cmd T E num (w1, b1) c
                     = Some (emit Wait_for_search_finished w2,
                             b1\<lparr>b_token := ''go'', b_cnt := b_cnt b1 + 1,
                                b_nodes := b_nodes b1 + nodes_searched E (Suc (n_searches w1))\<rparr>)"
    by (cases "tokens c") (simp_all add: first_token_def bench_cmd_def emit_def)
  with w2(1) show "\<exists>w2. go T E ?w0 (drop 1 (tokens c)) = Some w2
                 \<and> bench_cmd T E num (w1, b1) c
                     = Some (emit Wait_for_search_finished w2,
                             b1\<lparr>b_token := ''go'', b_cnt := b_cnt b1 + 1,
                                b_nodes := b_nodes b1 + nodes_searched E (Suc (n_searches w1))\<rparr>)"
    by blast
qed

lemma sample_script:
  "setup_bench sample_engine (cur_pos sample_session) []
     = [''position startpos'', ''go depth 1'', ''ucinewgame'', ''go depth 1'']"
  by (simp add: sample_engine_def)

lemma sample_script_tokens:
  "tokens ''position startpos'' = [''position'', ''startpos'']"
  "tokens ''go depth 1'' = [''go'', ''depth'', ''1'']"
  "tokens ''ucinewgame'' = [''ucinewgame'']"
  by (simp_all add: tokens_def isspace_def)

lemma sample_script_counts:
  "clock_reads [''position startpos'', ''go depth 1'', ''ucinewgame'', ''go depth 1''] = 3"
  "go_lines [''position startpos'', ''go depth 1'', ''ucinewgame'', ''go depth 1''] = 2"
  "start_read [''position startpos'', ''go depth 1'', ''ucinewgame'', ''go depth 1''] = 2"
  by (simp_all add: clock_reads_def go_lines_def start_read_def first_token_def sample_script_tokens)

lemma sample_clock: "now sample_engine k = 1000 + 5 * of_nat k"
  by (simp add: sample_engine_def)

lemma sample_total_nodes: "total_nodes sample_engine 0 2 = 300"
  by (simp add: total_nodes_def sample_engine_def upt_rec)

lemma bench_report_11_300:
  "bench_report 11 300 =
     [CHR 0x0A] @ ''==========================='' @ [CHR 0x0A] @ ''Total time (ms) : 11''
     @ [CHR 0x0A] @ ''Nodes searched  : 300'' @ [CHR 0x0A] @ ''Nodes/second    : 27272'' @ [CHR 0x0A]"
  by (simp add: bench_report_def show_int_def digit_char_def char_of_def)

theorem bench_reports_elapsed_plus_one_witness:
  "encodable sample_types sample_engine
   \<and> list_all (\<lambda>c. tokens c \<noteq> []) (setup_bench sample_engine (cur_pos sample_session) [])
   \<and> now sample_engine (Suc (clock_ticks sample_session
             + clock_reads (setup_bench sample_engine (cur_pos sample_session) [])))
       - now sample_engine (clock_ticks sample_session
             + start_read (setup_bench sample_engine (cur_pos sample_session) [])) + 1 \<noteq> 0
   \<and> (\<exists>w'. bench sample_types sample_engine sample_session [] = Some w'
          \<and> last (trace w') = Cerr (bench_report (1020 - 1010 + 1) 300))"
proof -
  let ?script = "setup_bench sample_engine (cur_pos sample_session) []"
  have e: "encodable sample_types sample_engine"
    by (rule sample_encodable)
  have s: "?script = setup_bench sample_engine (cur_pos sample_session) []"
    by simp
  have l: "list_all (\<lambda>c. tokens c \<noteq> []) ?script"
    by (simp add: sample_script sample_script_tokens)
  have k: "clock_ticks sample_session = 0" and n: "n_searches sample_session = 0"
    by (simp_all add: sample_session_def)
  have z: "now sample_engine (Suc (clock_ticks sample_session + clock_reads ?script))
       - now sample_engine (clock_ticks sample_session + start_read ?script) + 1 \<noteq> 0"
    by (simp add: sample_script sample_script_counts k sample_clock)
  from bench_reports_elapsed_plus_one [OF e s l z, THEN conjunct1]
  have "\<exists>w'. bench sample_types sample_engine sample_session [] = Some w'
          \<and> last (trace w') = Cerr (bench_report (1020 - 1010 + 1) 300)"
    by (simp add: sample_script sample_script_counts k n sample_clock sample_total_nodes)
  with e l z show ?thesis by blast
qed


text \<open>
  The claim as stated asks for the larger of \<open>now - start\<close> and 1. In the sample script
  the start reading is number 2 and the last reading number 4; they are 10 apart, and the
  summary reports 11.
\<close>

theorem bench_elapsed_not_max_counterexample:
  "map_option (last \<circ> trace) (bench sample_types sample_engine sample_session [])
     = Some (Cerr (bench_report 11 300))
   \<and> bench_report 11 300 =
       [CHR 0x0A] @ ''==========================='' @ [CHR 0x0A] @ ''Total time (ms) : 11''
       @ [CHR 0x0A] @ ''Nodes searched  : 300'' @ [CHR 0x0A] @ ''Nodes/second    : 27272'' @ [CHR 0x0A]
   \<and> Suc (clock_ticks sample_session
          + clock_reads (setup_bench sample_engine (cur_pos sample_session) [])) = 4
   \<and> clock_ticks sample_session
        + start_read (setup_bench sample_engine (cur_pos sample_session) []) = 2
   \<and> now sample_engine 4 - now sample_engine 2 = 10
   \<and> max (now sample_engine 4 - now sample_engine 2) 1 \<noteq> 11"
proof -
  let ?script = "setup_bench sample_engine (cur_pos sample_session) []"
  have e: "encodable sample_types sample_engine"
    by (rule sample_encodable)
  have s: "?script = setup_bench sample_engine (cur_pos sample_session) []"
    by simp
  have l: "list_all (\<lambda>c. tokens c \<noteq> []) ?script"
    by (simp add: sample_script sample_script_tokens)
  have k: "clock_ticks sample_session = 0" and n: "n_searches sample_session = 0"
    by (simp_all add: sample_session_def)
  have z: "now sample_engine (Suc (clock_ticks sample_session + clock_reads ?script))
       - now sample_engine (clock_ticks sample_session + start_read ?script) + 1 \<noteq> 0"
    by (simp add: sample_script sample_script_counts k sample_clock)
  from bench_run_report [OF e s l z]
  have "\<exists>w'. bench sample_types sample_engine sample_session [] = Some w'
          \<and> last (trace w') = Cerr (bench_report 11 300)"
    by (simp add: sample_script sample_script_counts k n sample_clock sample_total_nodes)
  then have a: "map_option (last \<circ> trace) (bench sample_types sample_engine sample_session [])
     = Some (Cerr (bench_report 11 300))"
    by auto
  have b: "Suc (clock_ticks sample_session + clock_reads ?script) = 4"
    and c: "clock_ticks sample_session + start_read ?script = 2"
    by (simp_all add: sample_script sample_script_counts k)
  have d: "now sample_engine 4 - now sample_engine 2 = 10"
    by (simp add: sample_clock)
  have m: "max (now sample_engine 4 - now sample_engine 2) 1 \<noteq> 11"
    by (simp add: d)
  show ?thesis by (intro conjI a bench_report_11_300 b c d m)
qed

end
